theory Spec2Isabelle
  imports Main
begin

section \<open>Exceptions and strings\<close>

text \<open>
  The exceptions the program raises or lets through. A \<open>ValueError\<close> carries its message,
  because the decorator \<open>input_error\<close> returns \<open>str(e)\<close> to the user.
\<close>

datatype py_error =
    ValueError string
  | KeyError
  | IndexError
  | OverflowError
  | FileNotFoundError
  | NotADirectoryError
  | IsADirectoryError
  | PermissionError
  | OSError
  | UnpicklingError

text \<open>
  A Python \<open>str\<close> is a sequence of code points. A \<^typ>\<open>char\<close> stands for the code point
  of the same number, so a \<^typ>\<open>string\<close> is a Python string over the code points
  U+0000 to U+00FF, and \<^const>\<open>length\<close> is Python's \<open>len\<close>.
\<close>

definition code_point :: "char \<Rightarrow> nat" where
  "code_point c = of_char c"

text \<open>The characters 0 to 9.\<close>

definition is_decimal_char :: "char \<Rightarrow> bool" where
  "is_decimal_char c = (48 \<le> code_point c \<and> code_point c \<le> 57)"

text \<open>
  \<open>str.isdigit\<close> on one character: true for the characters whose Unicode numeric type is
  Decimal or Digit. Up to U+00FF these are 0 to 9 and the superscripts U+00B2, U+00B3
  and U+00B9.
\<close>

definition isdigit_char :: "char \<Rightarrow> bool" where
  "isdigit_char c =
     (is_decimal_char c \<or> code_point c = 178 \<or> code_point c = 179 \<or> code_point c = 185)"

text \<open>\<open>str.isdigit\<close>: every character is a digit and there is at least one character.\<close>

definition isdigit :: "string \<Rightarrow> bool" where
  "isdigit s = (s \<noteq> [] \<and> list_all isdigit_char s)"

section \<open>Phone\<close>

datatype Phone = Phone_obj (phone_number: string)

definition phone_error :: py_error where
  "phone_error = ValueError ''Phone number must contain exactly 10 digits.''"

definition Phone_validate :: "string \<Rightarrow> bool" where
  "Phone_validate v = (isdigit v \<and> length v = 10)"

definition Phone :: "string \<Rightarrow> py_error + Phone" where
  "Phone v = (if \<not> Phone_validate v then Inl phone_error else Inr (Phone_obj v))"

text \<open>
  A method that mutates its object returns the outcome and the object afterwards; when
  it raises, the object is as the statements before the raise left it.
\<close>

definition update_number :: "Phone \<Rightarrow> string \<Rightarrow> (py_error + unit) \<times> Phone" where
  "update_number p new_number =
     (if \<not> Phone_validate new_number then (Inl phone_error, p)
      else (Inr (), Phone_obj new_number))"

text \<open>The spec's words: a string of exactly 10 decimal digits.\<close>

definition ten_decimal_digits :: "string \<Rightarrow> bool" where
  "ten_decimal_digits s = (length s = 10 \<and> list_all is_decimal_char s)"

section \<open>Calendar dates\<close>

text \<open>
  \<open>datetime.date\<close> of the standard library: a year, a month and a day, with the helper
  functions of the \<open>datetime\<close> module under their own names (without the leading
  underscore).
\<close>

record date =
  year :: nat
  month :: nat
  day :: nat

definition MINYEAR :: nat where "MINYEAR = 1"
definition MAXYEAR :: nat where "MAXYEAR = 9999"

definition is_leap :: "nat \<Rightarrow> bool" where
  "is_leap y = (y mod 4 = 0 \<and> (y mod 100 \<noteq> 0 \<or> y mod 400 = 0))"

definition days_before_year :: "nat \<Rightarrow> nat" where
  "days_before_year y =
     (y - 1) * 365 + (y - 1) div 4 + (y - 1) div 400 - (y - 1) div 100"

text \<open>The tables are indexed by the month, 1 to 12; index 0 is a placeholder never read.\<close>

definition DAYS_IN_MONTH :: "nat list" where
  "DAYS_IN_MONTH = [0, 31, 28, 31, 30, 31, 30, 31, 31, 30, 31, 30, 31]"

definition DAYS_BEFORE_MONTH :: "nat list" where
  "DAYS_BEFORE_MONTH = [0, 0, 31, 59, 90, 120, 151, 181, 212, 243, 273, 304, 334]"

definition days_in_month :: "nat \<Rightarrow> nat \<Rightarrow> nat" where
  "days_in_month y m = (if m = 2 \<and> is_leap y then 29 else DAYS_IN_MONTH ! m)"

definition days_before_month :: "nat \<Rightarrow> nat \<Rightarrow> nat" where
  "days_before_month y m = DAYS_BEFORE_MONTH ! m + (if m > 2 \<and> is_leap y then 1 else 0)"

definition toordinal :: "date \<Rightarrow> nat" where
  "toordinal d = days_before_year (year d) + days_before_month (year d) (month d) + day d"

text \<open>\<open>date.weekday()\<close>: 0 is Monday, 6 is Sunday.\<close>

definition weekday :: "date \<Rightarrow> nat" where
  "weekday d = (toordinal d + 6) mod 7"

text \<open>A month and a day that exist in the year, and the year in the range of \<open>date\<close>.\<close>

definition valid_ymd :: "date \<Rightarrow> bool" where
  "valid_ymd d =
     (1 \<le> year d \<and> 1 \<le> month d \<and> month d \<le> 12 \<and>
      1 \<le> day d \<and> day d \<le> days_in_month (year d) (month d))"

definition valid_date :: "date \<Rightarrow> bool" where
  "valid_date d = (valid_ymd d \<and> year d \<le> MAXYEAR)"

text \<open>Dates compare as the triples (year, month, day).\<close>

definition date_less :: "date \<Rightarrow> date \<Rightarrow> bool" where
  "date_less a b =
     (year a < year b \<or> (year a = year b \<and>
       (month a < month b \<or> (month a = month b \<and> day a < day b))))"

definition date_le :: "date \<Rightarrow> date \<Rightarrow> bool" where
  "date_le a b = (date_less a b \<or> a = b)"

section \<open>Rendering numbers and dates\<close>

definition digit_char :: "nat \<Rightarrow> char" where
  "digit_char n = ''0123456789'' ! n"

fun show_nat :: "nat \<Rightarrow> string" where
  "show_nat n = (if n < 10 then [digit_char n] else show_nat (n div 10) @ [digit_char (n mod 10)])"

declare show_nat.simps [simp del]

text \<open>The conversions \<open>%02d\<close> and \<open>%04d\<close>: zeros on the left up to the width.\<close>

definition zero_pad :: "nat \<Rightarrow> nat \<Rightarrow> string" where
  "zero_pad w n = replicate (w - length (show_nat n)) (CHR ''0'') @ show_nat n"

text \<open>
  The constructor \<open>date(year, month, day)\<close> with its checks, in their order.
\<close>

definition date_new :: "nat \<Rightarrow> nat \<Rightarrow> nat \<Rightarrow> py_error + date" where
  "date_new y m d =
     (if \<not> (MINYEAR \<le> y \<and> y \<le> MAXYEAR)
        then Inl (ValueError (''year '' @ show_nat y @ '' is out of range''))
      else if \<not> (1 \<le> m \<and> m \<le> 12) then Inl (ValueError ''month must be in 1..12'')
      else if \<not> (1 \<le> d \<and> d \<le> days_in_month y m)
        then Inl (ValueError ''day is out of range for month'')
      else Inr \<lparr>year = y, month = m, day = d\<rparr>)"

text \<open>\<open>d.replace(year=y)\<close> builds a new date from the new year and the old month and day.\<close>

definition date_replace_year :: "date \<Rightarrow> nat \<Rightarrow> py_error + date" where
  "date_replace_year d y = date_new y (month d) (day d)"

text \<open>The day after a date.\<close>

definition next_day :: "date \<Rightarrow> date" where
  "next_day d =
     (if day d < days_in_month (year d) (month d) then d\<lparr>day := day d + 1\<rparr>
      else if month d < 12 then d\<lparr>month := month d + 1, day := 1\<rparr>
      else \<lparr>year = year d + 1, month = 1, day = 1\<rparr>)"

primrec days_after :: "date \<Rightarrow> nat \<Rightarrow> date" where
  "days_after d 0 = d"
| "days_after d (Suc k) = next_day (days_after d k)"

text \<open>
  \<open>d + timedelta(days=k)\<close> for \<open>k \<ge> 0\<close>: the date \<open>k\<close> days later, or \<open>OverflowError\<close>
  when that date is after 31 December 9999.
\<close>

definition date_add :: "date \<Rightarrow> nat \<Rightarrow> py_error + date" where
  "date_add d k =
     (let r = days_after d k in if year r > MAXYEAR then Inl OverflowError else Inr r)"

text \<open>
  \<open>strftime\<close> with the formats \<open>%Y-%m-%d\<close> and \<open>%d.%m.%Y\<close>. The day and the month are
  padded to two digits. The year is what the C library of the platform prints for
  \<open>%Y\<close>: on Linux the number without padding, which has four digits from the year
  1000 on.
\<close>

definition strftime_Y :: "nat \<Rightarrow> string" where
  "strftime_Y y = show_nat y"

definition strftime_Ymd :: "date \<Rightarrow> string" where
  "strftime_Ymd d =
     strftime_Y (year d) @ ''-'' @ zero_pad 2 (month d) @ ''-'' @ zero_pad 2 (day d)"

definition strftime_dmY :: "date \<Rightarrow> string" where
  "strftime_dmY d =
     zero_pad 2 (day d) @ ''.'' @ zero_pad 2 (month d) @ ''.'' @ strftime_Y (year d)"

section \<open>Parsing a date: \<open>datetime.strptime(value, "%d.%m.%Y")\<close>\<close>

text \<open>
  \<open>strptime\<close> turns the format into a regular expression, one group per directive:
  \<^verbatim>\<open>%d\<close> is \<^verbatim>\<open>3[0-1]|[1-2]\d|0[1-9]|[1-9]| [1-9]\<close>, \<^verbatim>\<open>%m\<close> is
  \<^verbatim>\<open>1[0-2]|0[1-9]|[1-9]\<close>, \<^verbatim>\<open>%Y\<close> is \<^verbatim>\<open>\d\d\d\d\<close>, and the dots of the format
  stand for themselves. It matches the expression at the start of the string, refuses
  a match that leaves characters over, converts the groups with \<open>int\<close> and builds the date.

  A group is a list of alternatives and an alternative a list of character classes.
  Matching returns every way a group matches at the start of a string, in the order of
  the alternatives, so that the first element of the list is the match the backtracking
  matcher finds.
\<close>

definition lit :: "char \<Rightarrow> char \<Rightarrow> bool" where
  "lit a c = (c = a)"

definition in_range :: "char \<Rightarrow> char \<Rightarrow> char \<Rightarrow> bool" where
  "in_range lo hi c = (code_point lo \<le> code_point c \<and> code_point c \<le> code_point hi)"

fun match_seq :: "(char \<Rightarrow> bool) list \<Rightarrow> string \<Rightarrow> string option" where
  "match_seq [] s = Some s"
| "match_seq (p # ps) [] = None"
| "match_seq (p # ps) (c # cs) = (if p c then match_seq ps cs else None)"

definition match_alt :: "(char \<Rightarrow> bool) list \<Rightarrow> string \<Rightarrow> (string \<times> string) list" where
  "match_alt ps s =
     (case match_seq ps s of None \<Rightarrow> [] | Some r \<Rightarrow> [(take (length ps) s, r)])"

definition match_group :: "(char \<Rightarrow> bool) list list \<Rightarrow> string \<Rightarrow> (string \<times> string) list" where
  "match_group alts s = concat (map (\<lambda>ps. match_alt ps s) alts)"

text \<open>The strings that a group matches in full.\<close>

definition matches :: "(char \<Rightarrow> bool) list list \<Rightarrow> string \<Rightarrow> bool" where
  "matches alts t = (\<exists>ps \<in> set alts. list_all2 (\<lambda>p c. p c) ps t)"

definition re_d :: "(char \<Rightarrow> bool) list list" where
  "re_d = [[lit CHR ''3'', in_range CHR ''0'' CHR ''1''],
           [in_range CHR ''1'' CHR ''2'', is_decimal_char],
           [lit CHR ''0'', in_range CHR ''1'' CHR ''9''],
           [in_range CHR ''1'' CHR ''9''],
           [lit CHR '' '', in_range CHR ''1'' CHR ''9'']]"

definition re_m :: "(char \<Rightarrow> bool) list list" where
  "re_m = [[lit CHR ''1'', in_range CHR ''0'' CHR ''2''],
           [lit CHR ''0'', in_range CHR ''1'' CHR ''9''],
           [in_range CHR ''1'' CHR ''9'']]"

definition re_Y :: "(char \<Rightarrow> bool) list list" where
  "re_Y = [[is_decimal_char, is_decimal_char, is_decimal_char, is_decimal_char]]"

definition re_dot :: "(char \<Rightarrow> bool) list list" where
  "re_dot = [[lit CHR ''.'']]"

text \<open>Every match of the whole format: the three groups and what is left of the string.\<close>

definition format_match :: "string \<Rightarrow> (string \<times> string \<times> string \<times> string) list" where
  "format_match s =
     concat (map (\<lambda>(d, r1).
       concat (map (\<lambda>(x1, r2).
         concat (map (\<lambda>(m, r3).
           concat (map (\<lambda>(x2, r4).
             map (\<lambda>(y, r5). (d, m, y, r5)) (match_group re_Y r4))
           (match_group re_dot r3)))
         (match_group re_m r2)))
       (match_group re_dot r1)))
     (match_group re_d s))"

text \<open>\<open>int\<close> on a group: spaces on the left are dropped, the rest are the digits 0 to 9.\<close>

definition py_int :: "string \<Rightarrow> nat" where
  "py_int s =
     foldl (\<lambda>a c. 10 * a + (code_point c - 48)) 0 (dropWhile (\<lambda>c. c = CHR '' '') s)"

text \<open>
  The messages of the two \<open>ValueError\<close>s of \<open>strptime\<close> quote the string and the format;
  the only caller replaces them, so they are shortened here.
\<close>

definition strptime :: "string \<Rightarrow> py_error + date" where
  "strptime s =
     (case format_match s of
        [] \<Rightarrow> Inl (ValueError ''time data does not match format'')
      | (d, m, y, rest) # _ \<Rightarrow>
          if rest \<noteq> [] then Inl (ValueError (''unconverted data remains: '' @ rest))
          else date_new (py_int y) (py_int m) (py_int d))"

section \<open>Birthday\<close>

datatype Birthday = Birthday_obj (birthday_value: date)

definition birthday_error :: py_error where
  "birthday_error = ValueError ''Invalid date format. Use DD.MM.YYYY''"

definition Birthday :: "string \<Rightarrow> py_error + Birthday" where
  "Birthday v =
     (case strptime v of
        Inl (ValueError msg) \<Rightarrow> Inl birthday_error
      | Inl e \<Rightarrow> Inl e
      | Inr dt \<Rightarrow> Inr (Birthday_obj dt))"

definition date_str :: "Birthday \<Rightarrow> string" where
  "date_str b = strftime_dmY (birthday_value b)"

text \<open>
  The spec's words: a zero-padded two-digit day, a zero-padded two-digit month and a
  four-digit year, separated by dots.
\<close>

definition dd_mm_yyyy :: "string \<Rightarrow> bool" where
  "dd_mm_yyyy s =
     list_all2 (\<lambda>p c. p c)
       [is_decimal_char, is_decimal_char, lit CHR ''.'', is_decimal_char, is_decimal_char,
        lit CHR ''.'', is_decimal_char, is_decimal_char, is_decimal_char, is_decimal_char] s"

section \<open>Record\<close>

datatype Address = Address_obj (address_value: string)

text \<open>
  A contact. \<open>Record.__init__\<close> sets the name, the phones and the birthday. The attribute
  \<open>addresses\<close> is attached by \<open>add_address\<close> the first time an address is added:
  \<^const>\<open>None\<close> says that the object has no such attribute, \<open>Some []\<close> that it has an
  empty list.
\<close>

record Record =
  name :: string
  phones :: "Phone list"
  birthday :: "Birthday option"
  addresses :: "Address list option"

definition Name :: "string \<Rightarrow> py_error + string" where
  "Name v = (if v = [] then Inl (ValueError ''Invalid name.'') else Inr v)"

definition new_Record :: "string \<Rightarrow> py_error + Record" where
  "new_Record n =
     (case Name n of
        Inl e \<Rightarrow> Inl e
      | Inr v \<Rightarrow> Inr \<lparr>name = v, phones = [], birthday = None, addresses = None\<rparr>)"

definition add_phone :: "Record \<Rightarrow> string \<Rightarrow> (py_error + unit) \<times> Record" where
  "add_phone r number =
     (case Phone number of
        Inl e \<Rightarrow> (Inl e, r)
      | Inr p \<Rightarrow> (Inr (), r\<lparr>phones := phones r @ [p]\<rparr>))"

definition add_birthday :: "Record \<Rightarrow> string \<Rightarrow> (py_error + unit) \<times> Record" where
  "add_birthday r birthday_str =
     (if birthday r \<noteq> None then (Inl (ValueError ''Birthday already set.''), r)
      else case Birthday birthday_str of
             Inl e \<Rightarrow> (Inl e, r)
           | Inr b \<Rightarrow> (Inr (), r\<lparr>birthday := Some b\<rparr>))"

section \<open>AddressBook\<close>

text \<open>
  The dictionary of the records by name, in insertion order: a list of pairs with
  distinct keys. Assigning to a key that is present keeps its place.
\<close>

type_synonym AddressBook = "(string \<times> Record) list"

fun dict_set :: "('k \<times> 'v) list \<Rightarrow> 'k \<Rightarrow> 'v \<Rightarrow> ('k \<times> 'v) list" where
  "dict_set [] k v = [(k, v)]"
| "dict_set ((k', v') # ps) k v =
     (if k' = k then (k, v) # ps else (k', v') # dict_set ps k v)"

definition add_record :: "AddressBook \<Rightarrow> Record \<Rightarrow> AddressBook" where
  "add_record book r = dict_set book (name r) r"

definition find_record :: "AddressBook \<Rightarrow> string \<Rightarrow> Record option" where
  "find_record book n = map_of book n"

definition dict_values :: "('k \<times> 'v) list \<Rightarrow> 'v list" where
  "dict_values book = map snd book"

section \<open>Upcoming birthdays\<close>

text \<open>
  \<open>AddressBook.get_upcoming_birthdays\<close>. The date of the day, which the method reads from
  the clock, is the argument \<open>today\<close>. The body of the loop is split at its comments:
  the re-anchoring of the birthday (the two \<open>replace\<close>), the shift of a weekend date,
  and the line that is appended.
\<close>

definition reanchor :: "date \<Rightarrow> date \<Rightarrow> py_error + date" where
  "reanchor today b =
     (case date_replace_year b (year today) of
        Inl e \<Rightarrow> Inl e
      | Inr bday_this_year \<Rightarrow>
          if date_less bday_this_year today
          then date_replace_year bday_this_year (year today + 1)
          else Inr bday_this_year)"

definition congr_date :: "date \<Rightarrow> py_error + date" where
  "congr_date bday_this_year =
     (if weekday bday_this_year \<ge> 5
      then date_add bday_this_year (7 - weekday bday_this_year)
      else Inr bday_this_year)"

definition greeting :: "date \<Rightarrow> string \<Rightarrow> string" where
  "greeting d n = strftime_Ymd d @ '': '' @ n"

definition upcoming_step ::
  "date \<Rightarrow> date \<Rightarrow> string list \<Rightarrow> Record \<Rightarrow> py_error + string list" where
  "upcoming_step today next_week greetings rec =
     (case birthday rec of
        None \<Rightarrow> Inr greetings
      | Some b \<Rightarrow>
          (case reanchor today (birthday_value b) of
             Inl e \<Rightarrow> Inl e
           | Inr bday_this_year \<Rightarrow>
               if date_le today bday_this_year \<and> date_le bday_this_year next_week
               then (case congr_date bday_this_year of
                       Inl e \<Rightarrow> Inl e
                     | Inr cd \<Rightarrow> Inr (greetings @ [greeting cd (name rec)]))
               else Inr greetings))"

fun upcoming_loop ::
  "date \<Rightarrow> date \<Rightarrow> Record list \<Rightarrow> string list \<Rightarrow> py_error + string list" where
  "upcoming_loop today next_week [] greetings = Inr greetings"
| "upcoming_loop today next_week (rec # recs) greetings =
     (case upcoming_step today next_week greetings rec of
        Inl e \<Rightarrow> Inl e
      | Inr greetings' \<Rightarrow> upcoming_loop today next_week recs greetings')"

definition get_upcoming_birthdays :: "date \<Rightarrow> AddressBook \<Rightarrow> py_error + string list" where
  "get_upcoming_birthdays today book =
     (case date_add today 7 of
        Inl e \<Rightarrow> Inl e
      | Inr next_week \<Rightarrow> upcoming_loop today next_week (dict_values book) [])"

subsection \<open>The algorithm in the spec's words\<close>

text \<open>How many days after \<open>today\<close> the date \<open>c\<close> is; negative when it is before.\<close>

definition days_out :: "date \<Rightarrow> date \<Rightarrow> int" where
  "days_out today c = int (toordinal c) - int (toordinal today)"

text \<open>
  Steps 1 and 2: the month and day of the birthday in the current year, or in the next
  year when that date is strictly before today.
\<close>

definition spec_candidate :: "date \<Rightarrow> date \<Rightarrow> date" where
  "spec_candidate today b =
     (let c = b\<lparr>year := year today\<rparr>
      in if days_out today c < 0 then b\<lparr>year := year today + 1\<rparr> else c)"

text \<open>Step 3: the inclusive window of seven days.\<close>

definition spec_in_window :: "date \<Rightarrow> date \<Rightarrow> bool" where
  "spec_in_window today c = (0 \<le> days_out today c \<and> days_out today c \<le> 7)"

definition spec_reported :: "date \<Rightarrow> Record \<Rightarrow> bool" where
  "spec_reported today rec =
     (case birthday rec of
        None \<Rightarrow> False
      | Some b \<Rightarrow> spec_in_window today (spec_candidate today (birthday_value b)))"

text \<open>Step 4: Saturday moves by two days, Sunday by one, the other days stay.\<close>

definition spec_shift :: "date \<Rightarrow> date" where
  "spec_shift c =
     (if weekday c = 5 then days_after c 2
      else if weekday c = 6 then days_after c 1
      else c)"

text \<open>Step 5: the line of a contact that qualifies.\<close>

definition spec_line :: "date \<Rightarrow> Record \<Rightarrow> string" where
  "spec_line today rec =
     (case birthday rec of
        None \<Rightarrow> []
      | Some b \<Rightarrow>
          strftime_Ymd (spec_shift (spec_candidate today (birthday_value b))) @ '': '' @ name rec)"

section \<open>Persistence\<close>

text \<open>
  The file system as \<open>open\<close> sees it: a tree of directories and regular files. A file
  says whether the process may read it, a directory whether the process may search it.
  Symbolic links are not modelled. The working directory is given by its names from
  the root.
\<close>

datatype 'b node = File bool 'b | Dir bool "(string \<times> 'b node) list"

record 'b filesystem =
  root :: "'b node"
  cwd :: "string list"

definition NAME_MAX :: nat where "NAME_MAX = 255"
definition PATH_MAX :: nat where "PATH_MAX = 4096"

text \<open>The length of a name in bytes: a code point from U+0080 on takes two bytes.\<close>

definition fs_bytes :: "string \<Rightarrow> nat" where
  "fs_bytes n = sum_list (map (\<lambda>c. if code_point c < 128 then 1 else 2) n)"

fun split_on :: "char \<Rightarrow> string \<Rightarrow> string list" where
  "split_on sep [] = [[]]"
| "split_on sep (c # cs) =
     (if c = sep then [] # split_on sep cs
      else (case split_on sep cs of [] \<Rightarrow> [[c]] | w # ws \<Rightarrow> (c # w) # ws))"

text \<open>
  The names of a path: slashes separate them, repeated slashes count once, and a path
  that ends with a slash asks for a directory, as the name \<open>.\<close> does.
\<close>

definition components :: "string \<Rightarrow> string list" where
  "components p =
     (let names = filter (\<lambda>n. n \<noteq> []) (split_on CHR ''/'' p)
      in if p \<noteq> [] \<and> last p = CHR ''/'' then names @ [''.''] else names)"

text \<open>
  One step of the walk for each name, from the node \<open>cur\<close> whose ancestors are \<open>ups\<close>,
  the parent first. The errors are those of the system call: \<open>ENOTDIR\<close>, \<open>EACCES\<close>,
  \<open>ENAMETOOLONG\<close> and \<open>ENOENT\<close>.
\<close>

fun walk :: "'b node \<Rightarrow> 'b node list \<Rightarrow> string list \<Rightarrow> py_error + 'b node \<times> 'b node list" where
  "walk cur ups [] = Inr (cur, ups)"
| "walk (File r b) ups (n # ns) = Inl NotADirectoryError"
| "walk (Dir x es) ups (n # ns) =
     (if \<not> x then Inl PermissionError
      else if n = ''.'' then walk (Dir x es) ups ns
      else if n = ''..'' then
        (case ups of [] \<Rightarrow> walk (Dir x es) [] ns | u # us \<Rightarrow> walk u us ns)
      else if NAME_MAX < fs_bytes n then Inl OSError
      else (case map_of es n of
              None \<Rightarrow> Inl FileNotFoundError
            | Some child \<Rightarrow> walk child (Dir x es # ups) ns))"

text \<open>
  The working directory is held open by the process: going down to it checks nothing,
  and it is the root when its names lead nowhere.
\<close>

fun descend :: "'b node \<Rightarrow> 'b node list \<Rightarrow> string list \<Rightarrow> 'b node \<times> 'b node list" where
  "descend cur ups [] = (cur, ups)"
| "descend (File r b) ups (n # ns) = (File r b, ups)"
| "descend (Dir x es) ups (n # ns) =
     (case map_of es n of
        None \<Rightarrow> (Dir x es, ups)
      | Some child \<Rightarrow> descend child (Dir x es # ups) ns)"

text \<open>
  Where a path leads. Python refuses a path with a NUL character before it asks the
  system; the empty path names nothing; a path of \<open>PATH_MAX\<close> bytes or more is too long.
\<close>

definition resolve :: "'b filesystem \<Rightarrow> string \<Rightarrow> py_error + 'b node \<times> 'b node list" where
  "resolve fs p =
     (if CHR 0x00 \<in> set p then Inl (ValueError ''embedded null byte'')
      else if p = [] then Inl FileNotFoundError
      else if PATH_MAX \<le> fs_bytes p then Inl OSError
      else if hd p = CHR ''/'' then walk (root fs) [] (components p)
      else (case descend (root fs) [] (cwd fs) of (start, ups) \<Rightarrow> walk start ups (components p)))"

text \<open>\<open>open(filename, "rb")\<close> and reading the file to its end.\<close>

definition open_rb :: "'b filesystem \<Rightarrow> string \<Rightarrow> py_error + 'b" where
  "open_rb fs filename =
     (case resolve fs filename of
        Inl e \<Rightarrow> Inl e
      | Inr (File r b, ups) \<Rightarrow> if r then Inr b else Inl PermissionError
      | Inr (Dir x es, ups) \<Rightarrow> Inl IsADirectoryError)"

text \<open>The spec's words: a file exists at the path.\<close>

definition file_exists :: "'b filesystem \<Rightarrow> string \<Rightarrow> bool" where
  "file_exists fs p =
     (case resolve fs p of Inr (File r b, ups) \<Rightarrow> True | Inr (Dir x es, ups) \<Rightarrow> False | Inl e \<Rightarrow> False)"

text \<open>A name that is a path by itself, in the working directory.\<close>

definition plain_name :: "string \<Rightarrow> bool" where
  "plain_name n =
     (n \<noteq> [] \<and> CHR ''/'' \<notin> set n \<and> CHR 0x00 \<notin> set n \<and> n \<noteq> ''.'' \<and> n \<noteq> ''..''
      \<and> fs_bytes n \<le> NAME_MAX)"

text \<open>
  \<open>load_data\<close>. \<open>pickle.load\<close> belongs to the standard library and is the parameter
  \<open>pickle_load\<close>: what it makes of the content of a file, a book or an exception. The
  \<open>try\<close> covers both \<open>open\<close> and \<open>pickle.load\<close>, and only \<open>FileNotFoundError\<close> is caught.
\<close>

definition load_data ::
  "('b \<Rightarrow> py_error + AddressBook) \<Rightarrow> 'b filesystem \<Rightarrow> string \<Rightarrow> py_error + AddressBook" where
  "load_data pickle_load fs filename =
     (case (case open_rb fs filename of Inl e \<Rightarrow> Inl e | Inr f \<Rightarrow> pickle_load f) of
        Inl FileNotFoundError \<Rightarrow> Inr []
      | Inl e \<Rightarrow> Inl e
      | Inr book \<Rightarrow> Inr book)"

section \<open>Command handlers\<close>

text \<open>
  The decorator \<open>input_error\<close>: three exceptions become the text that is returned, any
  other exception goes on to the caller.
\<close>

definition input_error :: "py_error + string \<Rightarrow> py_error + string" where
  "input_error r =
     (case r of
        Inr s \<Rightarrow> Inr s
      | Inl KeyError \<Rightarrow> Inr ''Contact not found.''
      | Inl (ValueError msg) \<Rightarrow> Inr msg
      | Inl IndexError \<Rightarrow> Inr ''Enter the command followed by necessary arguments.''
      | Inl e \<Rightarrow> Inl e)"

text \<open>The \<open>ValueError\<close> of an unpacking \<open>a, b, *_ = args\<close> when \<open>args\<close> is too short.\<close>

definition unpack_error :: "nat \<Rightarrow> nat \<Rightarrow> py_error" where
  "unpack_error n got =
     ValueError (''not enough values to unpack (expected at least '' @ show_nat n @
                 '', got '' @ show_nat got @ '')'')"

text \<open>
  A handler returns its outcome and the book as it leaves it: the records are changed
  in place, so what was done before an exception stays done.
\<close>

definition add_contact_body :: "string list \<Rightarrow> AddressBook \<Rightarrow> (py_error + string) \<times> AddressBook" where
  "add_contact_body args book =
     (case args of
        n # phone # rest \<Rightarrow>
          (case (case find_record book n of
                   None \<Rightarrow>
                     (case new_Record n of
                        Inl e \<Rightarrow> Inl e
                      | Inr record \<Rightarrow> Inr (record, add_record book record, ''Contact added.''))
                 | Some record \<Rightarrow> Inr (record, book, ''Contact updated.'')) of
             Inl e \<Rightarrow> (Inl e, book)
           | Inr (record, book1, message) \<Rightarrow>
               if phone \<noteq> [] then
                 (case add_phone record phone of
                    (Inl e, record') \<Rightarrow> (Inl e, dict_set book1 n record')
                  | (Inr u, record') \<Rightarrow> (Inr message, dict_set book1 n record'))
               else (Inr message, book1))
      | _ \<Rightarrow> (Inl (unpack_error 2 (length args)), book))"

definition add_contact :: "string list \<Rightarrow> AddressBook \<Rightarrow> (py_error + string) \<times> AddressBook" where
  "add_contact args book = apfst input_error (add_contact_body args book)"

text \<open>The loop of \<open>change_address\<close>: the first address equal to the old one is replaced.\<close>

fun change_loop :: "string \<Rightarrow> string \<Rightarrow> Address list \<Rightarrow> Address list option" where
  "change_loop old_address new_address [] = None"
| "change_loop old_address new_address (addr # addrs) =
     (if address_value addr = old_address then Some (Address_obj new_address # addrs)
      else map_option ((#) addr) (change_loop old_address new_address addrs))"

definition change_address_body ::
  "string list \<Rightarrow> AddressBook \<Rightarrow> (py_error + string) \<times> AddressBook" where
  "change_address_body args book =
     (case args of
        n # old_address # new_address # rest \<Rightarrow>
          (case find_record book n of
             None \<Rightarrow> (Inl KeyError, book)
           | Some record \<Rightarrow>
               (case addresses record of
                  None \<Rightarrow> (Inl KeyError, book)
                | Some addrs \<Rightarrow>
                    (case change_loop old_address new_address addrs of
                       Some addrs' \<Rightarrow>
                         (Inr ''Address updated.'',
                          dict_set book n (record\<lparr>addresses := Some addrs'\<rparr>))
                     | None \<Rightarrow> (Inr ''Old address not found.'', book))))
      | _ \<Rightarrow> (Inl (unpack_error 3 (length args)), book))"

definition change_address ::
  "string list \<Rightarrow> AddressBook \<Rightarrow> (py_error + string) \<times> AddressBook" where
  "change_address args book = apfst input_error (change_address_body args book)"

definition remove_address_body ::
  "string list \<Rightarrow> AddressBook \<Rightarrow> (py_error + string) \<times> AddressBook" where
  "remove_address_body args book =
     (case args of
        n # address_str # rest \<Rightarrow>
          (case find_record book n of
             None \<Rightarrow> (Inl KeyError, book)
           | Some record \<Rightarrow>
               (case addresses record of
                  None \<Rightarrow> (Inl KeyError, book)
                | Some addrs \<Rightarrow>
                    (Inr ''Address removed.'',
                     dict_set book n
                       (record\<lparr>addresses :=
                          Some (filter (\<lambda>addr. address_value addr \<noteq> address_str) addrs)\<rparr>))))
      | _ \<Rightarrow> (Inl (unpack_error 2 (length args)), book))"

definition remove_address ::
  "string list \<Rightarrow> AddressBook \<Rightarrow> (py_error + string) \<times> AddressBook" where
  "remove_address args book = apfst input_error (remove_address_body args book)"

section \<open>Phone: the validation rule\<close>

lemma Phone_validate_iff:
  "Phone_validate s \<longleftrightarrow> length s = 10 \<and> list_all isdigit_char s"
  by (auto simp: Phone_validate_def isdigit_def)

lemma ten_decimal_digits_validate: "ten_decimal_digits s \<Longrightarrow> Phone_validate s"
  by (auto simp: Phone_validate_iff ten_decimal_digits_def isdigit_char_def list_all_iff)

section \<open>Calendar arithmetic\<close>

text \<open>A year has 366 days when it is a leap year and 365 otherwise.\<close>

lemma mod_100_4: "(n::nat) mod 100 = 0 \<Longrightarrow> n mod 4 = 0"
proof -
  assume "n mod 100 = 0"
  then have "100 dvd n" by (simp add: dvd_eq_mod_eq_0)
  moreover have "(4::nat) dvd 100" by simp
  ultimately have "4 dvd n" by (rule dvd_trans[rotated])
  then show ?thesis by (simp add: dvd_eq_mod_eq_0)
qed

lemma mod_400_100: "(n::nat) mod 400 = 0 \<Longrightarrow> n mod 100 = 0"
proof -
  assume "n mod 400 = 0"
  then have "400 dvd n" by (simp add: dvd_eq_mod_eq_0)
  moreover have "(100::nat) dvd 400" by simp
  ultimately have "100 dvd n" by (rule dvd_trans[rotated])
  then show ?thesis by (simp add: dvd_eq_mod_eq_0)
qed

lemma days_before_year_Suc:
  assumes "1 \<le> y"
  shows "days_before_year (Suc y) = days_before_year y + (if is_leap y then 366 else 365)"
proof -
  from assms obtain k where k: "y = Suc k" by (cases y) auto
  have d4: "Suc k div 4 = k div 4 + (if Suc k mod 4 = 0 then 1 else 0)"
    by (simp add: div_Suc)
  have d100: "Suc k div 100 = k div 100 + (if Suc k mod 100 = 0 then 1 else 0)"
    by (simp add: div_Suc)
  have d400: "Suc k div 400 = k div 400 + (if Suc k mod 400 = 0 then 1 else 0)"
    by (simp add: div_Suc)
  have le: "k div 100 \<le> k div 4" by (rule div_le_mono2) simp_all
  have a: "Suc k mod 100 = 0 \<Longrightarrow> Suc k mod 4 = 0" by (rule mod_100_4)
  have b: "Suc k mod 400 = 0 \<Longrightarrow> Suc k mod 100 = 0" by (rule mod_400_100)
  have gen: "c \<le> a \<Longrightarrow> (l100 \<longrightarrow> l4) \<Longrightarrow> (l400 \<longrightarrow> l100) \<Longrightarrow>
      Suc k * 365 + (a + (if l4 then 1 else 0)) + (b + (if l400 then 1 else 0))
        - (c + (if l100 then 1 else 0)) =
      k * 365 + a + b - c + (if l4 \<and> (\<not> l100 \<or> l400) then 366 else (365::nat))"
    for a b c :: nat and l4 l100 l400 :: bool
    by (cases l4; cases l100; cases l400) simp_all
  have main: "Suc k * 365 + Suc k div 4 + Suc k div 400 - Suc k div 100 =
        k * 365 + k div 4 + k div 400 - k div 100 + (if is_leap (Suc k) then 366 else 365)"
    unfolding d4 d100 d400 is_leap_def using gen[OF le, of "Suc k mod 100 = 0" "Suc k mod 4 = 0" "Suc k mod 400 = 0" "k div 400"] a b
    by blast
  show ?thesis unfolding days_before_year_def k diff_Suc_1 by (rule main)
qed

lemma month_cases:
  assumes "1 \<le> m" "m \<le> 12"
  shows "m = 1 \<or> m = 2 \<or> m = 3 \<or> m = 4 \<or> m = 5 \<or> m = 6 \<or> m = 7 \<or> m = 8 \<or> m = 9
         \<or> m = 10 \<or> m = 11 \<or> m = (12::nat)"
  using assms by arith

lemma days_before_month_Suc:
  assumes "1 \<le> m" "m < 12"
  shows "days_before_month y (Suc m) = days_before_month y m + days_in_month y m"
proof -
  from assms have "1 \<le> m" "m \<le> 12" by simp_all
  from month_cases[OF this] assms(2) show ?thesis
    by (auto simp: days_before_month_def days_in_month_def DAYS_BEFORE_MONTH_def DAYS_IN_MONTH_def)
qed

lemma days_before_month_1: "days_before_month y (Suc 0) = 0"
  by (simp add: days_before_month_def DAYS_BEFORE_MONTH_def)

lemma days_before_month_12:
  "days_before_month y 12 + days_in_month y 12 = (if is_leap y then 366 else 365)"
  by (simp add: days_before_month_def days_in_month_def DAYS_BEFORE_MONTH_def DAYS_IN_MONTH_def)

lemma days_in_month_pos:
  assumes "1 \<le> m" "m \<le> 12"
  shows "1 \<le> days_in_month y m"
  using month_cases[OF assms] by (auto simp: days_in_month_def DAYS_IN_MONTH_def)

lemma toordinal_next_day:
  assumes "valid_ymd d"
  shows "toordinal (next_day d) = toordinal d + 1"
proof -
  from assms have y: "1 \<le> year d" and m: "1 \<le> month d" "month d \<le> 12"
    and dd: "1 \<le> day d" "day d \<le> days_in_month (year d) (month d)"
    by (simp_all add: valid_ymd_def)
  show ?thesis
  proof (cases "day d < days_in_month (year d) (month d)")
    case True
    then show ?thesis by (simp add: next_day_def toordinal_def)
  next
    case last: False
    with dd have eq: "day d = days_in_month (year d) (month d)" by simp
    show ?thesis
    proof (cases "month d < 12")
      case True
      with last eq days_before_month_Suc[OF m(1) True, of "year d"] show ?thesis
        by (simp add: next_day_def toordinal_def)
    next
      case False
      with m have m12: "month d = 12" by simp
      from False last eq m12 days_before_month_12[of "year d"] days_before_year_Suc[OF y]
      show ?thesis
        by (simp add: next_day_def toordinal_def days_before_month_1)
    qed
  qed
qed

lemma valid_next_day:
  assumes "valid_ymd d"
  shows "valid_ymd (next_day d)"
proof -
  from assms have m: "1 \<le> month d" "month d \<le> 12" by (simp_all add: valid_ymd_def)
  have "1 \<le> days_in_month (year d) (Suc (month d))" if "month d < 12"
    using that m by (intro days_in_month_pos) simp_all
  moreover have "1 \<le> days_in_month (Suc (year d)) 1"
    by (intro days_in_month_pos) simp_all
  ultimately show ?thesis
    using assms by (auto simp: valid_ymd_def next_day_def)
qed

lemma toordinal_days_after:
  "valid_ymd d \<Longrightarrow> valid_ymd (days_after d k) \<and> toordinal (days_after d k) = toordinal d + k"
  by (induction k) (simp_all add: valid_next_day toordinal_next_day)

text \<open>The order of the dates is the order of their ordinals.\<close>

lemma days_before_year_next:
  assumes "1 \<le> y" "y < z"
  shows "days_before_year y + (if is_leap y then 366 else 365) \<le> days_before_year z"
  using assms(2)
proof (induction z)
  case 0
  then show ?case by simp
next
  case (Suc z)
  show ?case
  proof (cases "y = z")
    case True
    with days_before_year_Suc[OF assms(1)] show ?thesis by simp
  next
    case False
    with Suc have "days_before_year y + (if is_leap y then 366 else 365) \<le> days_before_year z"
      by simp
    moreover from False Suc.prems assms(1) have "1 \<le> z" by simp
    from days_before_year_Suc[OF this] have "days_before_year z \<le> days_before_year (Suc z)"
      by simp
    ultimately show ?thesis by simp
  qed
qed

lemma days_before_month_next:
  assumes "1 \<le> m" "m < n" "n \<le> 12"
  shows "days_before_month y m + days_in_month y m \<le> days_before_month y n"
  using assms(2,3)
proof (induction n)
  case 0
  then show ?case by simp
next
  case (Suc n)
  show ?case
  proof (cases "m = n")
    case True
    with Suc.prems assms(1) days_before_month_Suc[of m y] show ?thesis by simp
  next
    case False
    with Suc have "days_before_month y m + days_in_month y m \<le> days_before_month y n"
      by simp
    moreover from False Suc.prems assms(1) have "1 \<le> n" "n < 12" by simp_all
    from days_before_month_Suc[OF this] have "days_before_month y n \<le> days_before_month y (Suc n)"
      by simp
    ultimately show ?thesis by simp
  qed
qed

lemma day_of_year_le:
  assumes "valid_ymd d"
  shows "days_before_month (year d) (month d) + day d \<le> (if is_leap (year d) then 366 else 365)"
proof -
  from assms have m: "1 \<le> month d" "month d \<le> 12"
    and dd: "day d \<le> days_in_month (year d) (month d)"
    by (simp_all add: valid_ymd_def)
  show ?thesis
  proof (cases "month d = 12")
    case True
    with dd days_before_month_12[of "year d"] show ?thesis by simp
  next
    case False
    with m have "month d < 12" by simp
    from days_before_month_next[OF m(1) this, of "year d"] days_before_month_12[of "year d"] dd
    show ?thesis by simp
  qed
qed

lemma date_less_toordinal:
  assumes "valid_ymd a" "valid_ymd b" "date_less a b"
  shows "toordinal a < toordinal b"
proof -
  from assms(1) have ya: "1 \<le> year a" and ma: "1 \<le> month a"
    and da: "day a \<le> days_in_month (year a) (month a)"
    by (simp_all add: valid_ymd_def)
  from assms(2) have mb: "month b \<le> 12" and db: "1 \<le> day b"
    by (simp_all add: valid_ymd_def)
  consider (y) "year a < year b"
    | (m) "year a = year b" "month a < month b"
    | (d) "year a = year b" "month a = month b" "day a < day b"
    using assms(3) by (auto simp: date_less_def)
  then show ?thesis
  proof cases
    case y
    from days_before_year_next[OF ya y] day_of_year_le[OF assms(1)] db
    show ?thesis by (simp add: toordinal_def)
  next
    case m
    from days_before_month_next[OF ma m(2) mb, of "year a"] da db m(1)
    show ?thesis by (simp add: toordinal_def)
  next
    case d
    then show ?thesis by (simp add: toordinal_def)
  qed
qed

lemma date_trichotomy: "date_less a b \<or> a = b \<or> date_less b a"
  by (cases a; cases b) (auto simp: date_less_def)

lemma date_less_iff:
  assumes "valid_ymd a" "valid_ymd b"
  shows "date_less a b \<longleftrightarrow> toordinal a < toordinal b"
proof
  assume "date_less a b"
  with assms show "toordinal a < toordinal b" by (rule date_less_toordinal)
next
  assume lt: "toordinal a < toordinal b"
  from date_trichotomy[of a b] show "date_less a b"
  proof (elim disjE)
    assume "a = b"
    with lt show ?thesis by simp
  next
    assume "date_less b a"
    from date_less_toordinal[OF assms(2,1) this] lt show ?thesis by simp
  qed
qed

lemma date_le_iff:
  assumes "valid_ymd a" "valid_ymd b"
  shows "date_le a b \<longleftrightarrow> toordinal a \<le> toordinal b"
proof -
  have "a = b" if "toordinal a = toordinal b"
    using date_trichotomy[of a b] date_less_toordinal[OF assms] date_less_toordinal[OF assms(2,1)] that
    by auto
  then have "a = b \<longleftrightarrow> toordinal a = toordinal b" by auto
  then show ?thesis
    unfolding date_le_def date_less_iff[OF assms] by (simp add: le_less)
qed

section \<open>The steps of the birthday loop\<close>

lemma date_new_Inr:
  assumes "date_new y m d = Inr r"
  shows "r = \<lparr>year = y, month = m, day = d\<rparr> \<and> valid_date r"
  using assms
  by (auto simp: date_new_def valid_date_def valid_ymd_def MINYEAR_def split: if_splits)

lemma date_replace_year_Inr:
  assumes "date_replace_year b y = Inr c"
  shows "c = b\<lparr>year := y\<rparr> \<and> valid_date c"
proof -
  from assms have "date_new y (month b) (day b) = Inr c" by (simp add: date_replace_year_def)
  from date_new_Inr[OF this] show ?thesis by (cases b) auto
qed

lemma valid_date_ymd: "valid_date d \<Longrightarrow> valid_ymd d"
  by (simp add: valid_date_def)

lemma days_out_less: "days_out today c < 0 \<longleftrightarrow> toordinal c < toordinal today"
  by (simp add: days_out_def)

lemma reanchor_spec:
  assumes "valid_date today" "reanchor today b = Inr c"
  shows "c = spec_candidate today b \<and> valid_date c"
proof -
  from assms(2) obtain c0 where c0: "date_replace_year b (year today) = Inr c0"
    by (auto simp: reanchor_def split: sum.splits)
  from date_replace_year_Inr[OF c0] have c0_eq: "c0 = b\<lparr>year := year today\<rparr>"
    and c0_valid: "valid_date c0" by auto
  have less: "date_less c0 today \<longleftrightarrow> days_out today c0 < 0"
    using date_less_iff[OF valid_date_ymd[OF c0_valid] valid_date_ymd[OF assms(1)]]
    by (simp add: days_out_less)
  show ?thesis
  proof (cases "date_less c0 today")
    case True
    with assms(2) c0 have "date_replace_year c0 (year today + 1) = Inr c"
      by (simp add: reanchor_def)
    from date_replace_year_Inr[OF this] True less c0_eq show ?thesis
      by (auto simp: spec_candidate_def)
  next
    case False
    with assms(2) c0 have "c = c0" by (simp add: reanchor_def)
    with False less c0_eq c0_valid show ?thesis by (auto simp: spec_candidate_def)
  qed
qed

lemma date_add_Inr:
  assumes "valid_ymd d" "date_add d k = Inr r"
  shows "r = days_after d k \<and> valid_date r \<and> toordinal r = toordinal d + k"
  using assms toordinal_days_after[OF assms(1), of k]
  by (auto simp: date_add_def Let_def valid_date_def split: if_splits)

lemma window_spec:
  assumes "valid_date today" "valid_date c" "date_add today 7 = Inr next_week"
  shows "date_le today c \<and> date_le c next_week \<longleftrightarrow> spec_in_window today c"
proof -
  note t = valid_date_ymd[OF assms(1)] and vc = valid_date_ymd[OF assms(2)]
  from date_add_Inr[OF t assms(3)] have nw: "valid_ymd next_week"
    "toordinal next_week = toordinal today + 7"
    by (auto simp: valid_date_ymd)
  show ?thesis
    unfolding date_le_iff[OF t vc] date_le_iff[OF vc nw(1)] nw(2) spec_in_window_def days_out_def
    by auto
qed

lemma weekday_less: "weekday d < 7"
  by (simp add: weekday_def)

lemma congr_date_spec:
  assumes "valid_date c" "congr_date c = Inr cd"
  shows "cd = spec_shift c"
proof (cases "weekday c \<ge> 5")
  case False
  with assms(2) show ?thesis by (simp add: congr_date_def spec_shift_def)
next
  case True
  with weekday_less[of c] have w: "weekday c = 5 \<or> weekday c = 6" by arith
  from True assms(2) have "date_add c (7 - weekday c) = Inr cd" by (simp add: congr_date_def)
  from date_add_Inr[OF valid_date_ymd[OF assms(1)] this] have "cd = days_after c (7 - weekday c)"
    by simp
  with w show ?thesis by (auto simp: spec_shift_def)
qed

lemma upcoming_step_spec:
  assumes "valid_date today" "date_add today 7 = Inr next_week"
    and "upcoming_step today next_week gs rec = Inr gs'"
  shows "gs' = gs @ (if spec_reported today rec then [spec_line today rec] else [])"
proof (cases "birthday rec")
  case None
  with assms(3) show ?thesis by (simp add: upcoming_step_def spec_reported_def)
next
  case (Some b)
  with assms(3) obtain c where c: "reanchor today (birthday_value b) = Inr c"
    by (auto simp: upcoming_step_def split: sum.splits)
  from reanchor_spec[OF assms(1) c] have c_eq: "c = spec_candidate today (birthday_value b)"
    and c_valid: "valid_date c" by auto
  note win = window_spec[OF assms(1) c_valid assms(2)]
  show ?thesis
  proof (cases "spec_in_window today c")
    case False
    with assms(3) Some c win c_eq show ?thesis
      by (auto simp: upcoming_step_def spec_reported_def)
  next
    case True
    with assms(3) Some c win obtain cd where cd: "congr_date c = Inr cd"
      and gs': "gs' = gs @ [greeting cd (name rec)]"
      by (auto simp: upcoming_step_def split: sum.splits)
    from congr_date_spec[OF c_valid cd] True Some c_eq gs' show ?thesis
      by (auto simp: spec_reported_def spec_line_def greeting_def)
  qed
qed

lemma upcoming_step_reanchor:
  assumes "valid_date today" "upcoming_step today next_week gs rec = Inr gs'"
    and "birthday rec = Some b"
  shows "reanchor today (birthday_value b) = Inr (spec_candidate today (birthday_value b))"
proof -
  from assms(2,3) obtain c where c: "reanchor today (birthday_value b) = Inr c"
    by (auto simp: upcoming_step_def split: sum.splits)
  from reanchor_spec[OF assms(1) c] c show ?thesis by simp
qed

lemma upcoming_loop_spec:
  assumes "valid_date today" "date_add today 7 = Inr next_week"
  shows "upcoming_loop today next_week recs gs = Inr gs' \<Longrightarrow>
         gs' = gs @ map (spec_line today) (filter (spec_reported today) recs)"
proof (induction recs arbitrary: gs)
  case Nil
  then show ?case by simp
next
  case (Cons rec recs)
  from Cons.prems obtain gs1 where step: "upcoming_step today next_week gs rec = Inr gs1"
    and rest: "upcoming_loop today next_week recs gs1 = Inr gs'"
    by (auto split: sum.splits)
  from upcoming_step_spec[OF assms step] Cons.IH[OF rest] show ?case by simp
qed

lemma upcoming_loop_reanchor:
  assumes "valid_date today"
  shows "upcoming_loop today next_week recs gs = Inr gs' \<Longrightarrow> rec \<in> set recs \<Longrightarrow>
         birthday rec = Some b \<Longrightarrow>
         reanchor today (birthday_value b) = Inr (spec_candidate today (birthday_value b))"
proof (induction recs arbitrary: gs)
  case Nil
  then show ?case by simp
next
  case (Cons r recs)
  from Cons.prems(1) obtain gs1 where step: "upcoming_step today next_week gs r = Inr gs1"
    and rest: "upcoming_loop today next_week recs gs1 = Inr gs'"
    by (auto split: sum.splits)
  show ?case
  proof (cases "rec = r")
    case True
    with upcoming_step_reanchor[OF assms step] Cons.prems(3) show ?thesis by simp
  next
    case False
    with Cons.prems(2) have "rec \<in> set recs" by simp
    from Cons.IH[OF rest this Cons.prems(3)] show ?thesis .
  qed
qed

lemma get_upcoming_birthdays_Inr:
  assumes "get_upcoming_birthdays today book = Inr gs"
  obtains next_week where "date_add today 7 = Inr next_week"
    and "upcoming_loop today next_week (dict_values book) [] = Inr gs"
  using assms by (auto simp: get_upcoming_birthdays_def split: sum.splits)

lemma weekday_days_after:
  assumes "valid_ymd c"
  shows "weekday (days_after c k) = (weekday c + k) mod 7"
proof -
  from toordinal_days_after[OF assms, of k]
  have "toordinal (days_after c k) + 6 = (toordinal c + 6) + k" by simp
  then have "weekday (days_after c k) = ((toordinal c + 6) + k) mod 7"
    by (simp only: weekday_def)
  also have "\<dots> = ((toordinal c + 6) mod 7 + k) mod 7"
    by (rule mod_add_left_eq[symmetric])
  finally show ?thesis by (simp only: weekday_def)
qed

lemma spec_shift_weekday:
  assumes "valid_ymd c"
  shows "weekday (spec_shift c) = (if weekday c \<ge> 5 then 0 else weekday c)"
proof -
  have "weekday c = 5 \<or> weekday c = 6 \<or> weekday c < 5" using weekday_less[of c] by arith
  with weekday_days_after[OF assms, of 1] weekday_days_after[OF assms, of 2] show ?thesis
    by (auto simp: spec_shift_def)
qed

lemma greeting_lines:
  "list_all2 (\<lambda>line rec. \<exists>d. line = greeting d (name rec) \<and> birthday rec \<noteq> None)
     (map (spec_line today) (filter (spec_reported today) recs))
     (filter (spec_reported today) recs)"
  by (induction recs) (auto simp: spec_line_def spec_reported_def greeting_def split: option.splits)

section \<open>Evaluating the birthday query on given dates\<close>

lemma days_after_numeral:
  "days_after d (numeral n) = next_day (days_after d (pred_numeral n))"
  by (simp add: numeral_eq_Suc)

lemmas upcoming_eval =
  get_upcoming_birthdays_def date_add_def days_after_numeral next_day_def days_in_month_def
  DAYS_IN_MONTH_def is_leap_def MAXYEAR_def MINYEAR_def dict_values_def upcoming_step_def
  reanchor_def date_replace_year_def date_new_def date_less_def date_le_def congr_date_def
  weekday_def toordinal_def days_before_year_def days_before_month_def DAYS_BEFORE_MONTH_def
  greeting_def strftime_Ymd_def strftime_Y_def zero_pad_def show_nat.simps digit_char_def

lemmas valid_date_eval =
  valid_date_def valid_ymd_def days_in_month_def DAYS_IN_MONTH_def MAXYEAR_def is_leap_def

lemmas Birthday_eval =
  Birthday_def strptime_def format_match_def match_group_def match_alt_def re_d_def re_m_def
  re_Y_def re_dot_def lit_def in_range_def is_decimal_char_def code_point_def py_int_def
  date_new_def MINYEAR_def MAXYEAR_def days_in_month_def DAYS_IN_MONTH_def is_leap_def

section \<open>The upcoming birthdays\<close>

text \<open>
  On every run of \<open>get_upcoming_birthdays\<close> that returns, every birthday was re-anchored
  as the spec says (its month and day in the current year, or in the next year when
  that date is strictly before today), and the lines returned are, in the order of the
  book, one for each record whose candidate is 0 to 7 days after today, and none for
  any other record: 7 days out is reported, 8 days out is not, and neither is a
  birthday that has passed and whose next occurrence is outside the window.
\<close>

lemma upcoming_birthdays_window:
  assumes "valid_date today" and "get_upcoming_birthdays today book = Inr gs"
  shows "(\<forall>rec \<in> set (dict_values book). \<forall>b. birthday rec = Some b \<longrightarrow>
            reanchor today (birthday_value b) = Inr (spec_candidate today (birthday_value b)))
         \<and> list_all2 (\<lambda>line rec. \<exists>d. line = greeting d (name rec) \<and> birthday rec \<noteq> None)
              gs (filter (spec_reported today) (dict_values book))"
proof -
  from assms(2) obtain next_week where nw: "date_add today 7 = Inr next_week"
    and loop: "upcoming_loop today next_week (dict_values book) [] = Inr gs"
    by (rule get_upcoming_birthdays_Inr)
  from upcoming_loop_spec[OF assms(1) nw loop]
  have "gs = map (spec_line today) (filter (spec_reported today) (dict_values book))" by simp
  with greeting_lines[of today "dict_values book"] upcoming_loop_reanchor[OF assms(1) loop]
  show ?thesis by auto
qed

lemma upcoming_birthdays_window_example:
  "valid_date \<lparr>year = 2024, month = 6, day = 10\<rparr>
   \<and> get_upcoming_birthdays \<lparr>year = 2024, month = 6, day = 10\<rparr>
     [(''Ann'', \<lparr>name = ''Ann'', phones = [],
         birthday = Some (Birthday_obj \<lparr>year = 1990, month = 6, day = 17\<rparr>), addresses = None\<rparr>),
      (''Bob'', \<lparr>name = ''Bob'', phones = [],
         birthday = Some (Birthday_obj \<lparr>year = 1991, month = 6, day = 18\<rparr>), addresses = None\<rparr>),
      (''Cy'', \<lparr>name = ''Cy'', phones = [],
         birthday = Some (Birthday_obj \<lparr>year = 1992, month = 1, day = 1\<rparr>), addresses = None\<rparr>)]
     = Inr [''2024-06-17: Ann'']
   \<and> list_all2 (\<lambda>line rec. \<exists>d. line = greeting d (name rec) \<and> birthday rec \<noteq> None)
     [''2024-06-17: Ann'']
     (filter (spec_reported \<lparr>year = 2024, month = 6, day = 10\<rparr>) (dict_values
     [(''Ann'', \<lparr>name = ''Ann'', phones = [],
         birthday = Some (Birthday_obj \<lparr>year = 1990, month = 6, day = 17\<rparr>), addresses = None\<rparr>),
      (''Bob'', \<lparr>name = ''Bob'', phones = [],
         birthday = Some (Birthday_obj \<lparr>year = 1991, month = 6, day = 18\<rparr>), addresses = None\<rparr>),
      (''Cy'', \<lparr>name = ''Cy'', phones = [],
         birthday = Some (Birthday_obj \<lparr>year = 1992, month = 1, day = 1\<rparr>), addresses = None\<rparr>)]))"
proof -
  have v: "valid_date \<lparr>year = 2024, month = 6, day = 10\<rparr>"
    by (simp add: valid_date_eval)
  have g: "get_upcoming_birthdays \<lparr>year = 2024, month = 6, day = 10\<rparr>
     [(''Ann'', \<lparr>name = ''Ann'', phones = [],
         birthday = Some (Birthday_obj \<lparr>year = 1990, month = 6, day = 17\<rparr>), addresses = None\<rparr>),
      (''Bob'', \<lparr>name = ''Bob'', phones = [],
         birthday = Some (Birthday_obj \<lparr>year = 1991, month = 6, day = 18\<rparr>), addresses = None\<rparr>),
      (''Cy'', \<lparr>name = ''Cy'', phones = [],
         birthday = Some (Birthday_obj \<lparr>year = 1992, month = 1, day = 1\<rparr>), addresses = None\<rparr>)]
     = Inr [''2024-06-17: Ann'']"
    by (simp add: upcoming_eval)
  from upcoming_birthdays_window[OF v g] v g show ?thesis by blast
qed

text \<open>
  On every run that returns, the result is exactly one line for each record that
  qualifies, in the order of the book; the line is the shifted date as YYYY-MM-DD, a
  colon, a space and the name, where a Saturday is shifted by two days and a Sunday by
  one, and the other days are not shifted. The shifted date of a Saturday or a Sunday
  is a Monday, and the date of a line is never on a weekend.
\<close>

lemma upcoming_birthdays_lines:
  assumes "valid_date today" and "get_upcoming_birthdays today book = Inr gs"
  shows "gs = map (spec_line today) (filter (spec_reported today) (dict_values book))
         \<and> (\<forall>rec \<in> set (dict_values book). \<forall>b. birthday rec = Some b \<longrightarrow>
              weekday (spec_shift (spec_candidate today (birthday_value b))) =
                (if weekday (spec_candidate today (birthday_value b)) \<ge> 5 then 0
                 else weekday (spec_candidate today (birthday_value b))))"
proof -
  from assms(2) obtain next_week where nw: "date_add today 7 = Inr next_week"
    and loop: "upcoming_loop today next_week (dict_values book) [] = Inr gs"
    by (rule get_upcoming_birthdays_Inr)
  from upcoming_loop_spec[OF assms(1) nw loop]
  have lines: "gs = map (spec_line today) (filter (spec_reported today) (dict_values book))"
    by simp
  have "weekday (spec_shift (spec_candidate today (birthday_value b))) =
          (if weekday (spec_candidate today (birthday_value b)) \<ge> 5 then 0
           else weekday (spec_candidate today (birthday_value b)))"
    if "rec \<in> set (dict_values book)" "birthday rec = Some b" for rec b
  proof -
    from upcoming_loop_reanchor[OF assms(1) loop that]
    have "reanchor today (birthday_value b) = Inr (spec_candidate today (birthday_value b))" .
    from reanchor_spec[OF assms(1) this]
    have "valid_ymd (spec_candidate today (birthday_value b))" by (simp add: valid_date_ymd)
    then show ?thesis by (rule spec_shift_weekday)
  qed
  with lines show ?thesis by blast
qed

lemma upcoming_birthdays_lines_example:
  "valid_date \<lparr>year = 2024, month = 6, day = 10\<rparr>
   \<and> get_upcoming_birthdays \<lparr>year = 2024, month = 6, day = 10\<rparr>
     [(''Emma'', \<lparr>name = ''Emma'', phones = [],
         birthday = Some (Birthday_obj \<lparr>year = 1985, month = 6, day = 15\<rparr>), addresses = None\<rparr>),
      (''Liam'', \<lparr>name = ''Liam'', phones = [],
         birthday = Some (Birthday_obj \<lparr>year = 2000, month = 6, day = 16\<rparr>), addresses = None\<rparr>),
      (''John'', \<lparr>name = ''John'', phones = [],
         birthday = Some (Birthday_obj \<lparr>year = 1990, month = 6, day = 12\<rparr>), addresses = None\<rparr>)]
     = Inr [''2024-06-17: Emma'', ''2024-06-17: Liam'', ''2024-06-12: John'']
   \<and> [''2024-06-17: Emma'', ''2024-06-17: Liam'', ''2024-06-12: John''] =
     map (spec_line \<lparr>year = 2024, month = 6, day = 10\<rparr>)
      (filter (spec_reported \<lparr>year = 2024, month = 6, day = 10\<rparr>) (dict_values
     [(''Emma'', \<lparr>name = ''Emma'', phones = [],
         birthday = Some (Birthday_obj \<lparr>year = 1985, month = 6, day = 15\<rparr>), addresses = None\<rparr>),
      (''Liam'', \<lparr>name = ''Liam'', phones = [],
         birthday = Some (Birthday_obj \<lparr>year = 2000, month = 6, day = 16\<rparr>), addresses = None\<rparr>),
      (''John'', \<lparr>name = ''John'', phones = [],
         birthday = Some (Birthday_obj \<lparr>year = 1990, month = 6, day = 12\<rparr>), addresses = None\<rparr>)]))"
proof -
  have v: "valid_date \<lparr>year = 2024, month = 6, day = 10\<rparr>"
    by (simp add: valid_date_eval)
  have g: "get_upcoming_birthdays \<lparr>year = 2024, month = 6, day = 10\<rparr>
     [(''Emma'', \<lparr>name = ''Emma'', phones = [],
         birthday = Some (Birthday_obj \<lparr>year = 1985, month = 6, day = 15\<rparr>), addresses = None\<rparr>),
      (''Liam'', \<lparr>name = ''Liam'', phones = [],
         birthday = Some (Birthday_obj \<lparr>year = 2000, month = 6, day = 16\<rparr>), addresses = None\<rparr>),
      (''John'', \<lparr>name = ''John'', phones = [],
         birthday = Some (Birthday_obj \<lparr>year = 1990, month = 6, day = 12\<rparr>), addresses = None\<rparr>)]
     = Inr [''2024-06-17: Emma'', ''2024-06-17: Liam'', ''2024-06-12: John'']"
    by (simp add: upcoming_eval)
  from upcoming_birthdays_lines[OF v g] v g show ?thesis by blast
qed

text \<open>
  C9. A contact born on 29 February 2000 and a day in 2023, which is not a leap year:
  the first \<open>replace\<close> raises \<open>ValueError\<close>, nothing catches it, and
  \<open>get_upcoming_birthdays\<close> returns no list.
\<close>

theorem leap_day_birthday_fails:
  "Birthday ''29.02.2000'' = Inr (Birthday_obj \<lparr>year = 2000, month = 2, day = 29\<rparr>)
   \<and> get_upcoming_birthdays \<lparr>year = 2023, month = 6, day = 10\<rparr>
     [(''Ann'', \<lparr>name = ''Ann'', phones = [],
         birthday = Some (Birthday_obj \<lparr>year = 2000, month = 2, day = 29\<rparr>), addresses = None\<rparr>)]
     = Inl (ValueError ''day is out of range for month'')"
proof -
  have "Birthday ''29.02.2000'' = Inr (Birthday_obj \<lparr>year = 2000, month = 2, day = 29\<rparr>)"
    by (simp add: Birthday_eval)
  moreover have "get_upcoming_birthdays \<lparr>year = 2023, month = 6, day = 10\<rparr>
     [(''Ann'', \<lparr>name = ''Ann'', phones = [],
         birthday = Some (Birthday_obj \<lparr>year = 2000, month = 2, day = 29\<rparr>), addresses = None\<rparr>)]
     = Inl (ValueError ''day is out of range for month'')"
    by (simp add: upcoming_eval)
  ultimately show ?thesis by (rule conjI)
qed

section \<open>Phone numbers\<close>

text \<open>
  C4. The claim fails on the code: ten times the superscript two (U+00B2) is not a
  string of decimal digits, and \<open>str.isdigit\<close> accepts it, so the Phone is built and
  keeps the string, where the claim, the docstring and the message of the error ask
  for exactly 10 digits.
\<close>

theorem Phone_accepts_superscript_digits:
  "Phone [CHR 0xB2, CHR 0xB2, CHR 0xB2, CHR 0xB2, CHR 0xB2, CHR 0xB2, CHR 0xB2, CHR 0xB2,
          CHR 0xB2, CHR 0xB2]
     = Inr (Phone_obj [CHR 0xB2, CHR 0xB2, CHR 0xB2, CHR 0xB2, CHR 0xB2, CHR 0xB2, CHR 0xB2,
                       CHR 0xB2, CHR 0xB2, CHR 0xB2])
   \<and> \<not> ten_decimal_digits [CHR 0xB2, CHR 0xB2, CHR 0xB2, CHR 0xB2, CHR 0xB2, CHR 0xB2,
                            CHR 0xB2, CHR 0xB2, CHR 0xB2, CHR 0xB2]"
  by (simp add: Phone_def Phone_validate_def isdigit_def isdigit_char_def is_decimal_char_def
      ten_decimal_digits_def code_point_def)

text \<open>
  What the code does on the strings of the model: construction succeeds exactly for the
  strings of 10 characters that are all digits for \<open>str.isdigit\<close>, and then stores the
  string unchanged; any other string gives the validation error; \<open>update_number\<close> follows
  the same rule and leaves the Phone as it was when it fails. Every string of exactly 10
  decimal digits is accepted.
\<close>

lemma Phone_validation:
  "Phone s = (if length s = 10 \<and> list_all isdigit_char s then Inr (Phone_obj s)
              else Inl (ValueError ''Phone number must contain exactly 10 digits.''))
   \<and> update_number p s =
       (if length s = 10 \<and> list_all isdigit_char s then (Inr (), Phone_obj s)
        else (Inl (ValueError ''Phone number must contain exactly 10 digits.''), p))
   \<and> (ten_decimal_digits s \<longrightarrow> Phone s = Inr (Phone_obj s))"
  using ten_decimal_digits_validate[of s]
  by (auto simp: Phone_def update_number_def Phone_validate_iff phone_error_def)

lemma Phone_validation_example:
  "ten_decimal_digits ''0123456789'' \<and> Phone ''0123456789'' = Inr (Phone_obj ''0123456789'')"
proof -
  have "ten_decimal_digits ''0123456789''"
    by (simp add: ten_decimal_digits_def is_decimal_char_def code_point_def)
  with Phone_validation[of "''0123456789''"] show ?thesis by blast
qed

section \<open>The birthday of a record is set once\<close>

text \<open>
  C6. On a record whose birthday is set, \<open>add_birthday\<close> raises
  \<open>ValueError("Birthday already set.")\<close> whatever the new string is, and leaves the record
  as it was. On a record without a birthday it builds the Birthday from the string: when
  the string is accepted the birthday is set, when it is refused the validation error
  goes to the caller and the record is unchanged. So a second call after a call that
  succeeded always fails.
\<close>

theorem add_birthday_once:
  "(birthday r \<noteq> None \<longrightarrow>
      add_birthday r s = (Inl (ValueError ''Birthday already set.''), r))
   \<and> (birthday r = None \<longrightarrow>
        (\<forall>b. Birthday s = Inr b \<longrightarrow> add_birthday r s = (Inr (), r\<lparr>birthday := Some b\<rparr>))
        \<and> (\<forall>e. Birthday s = Inl e \<longrightarrow> add_birthday r s = (Inl e, r)))
   \<and> (\<forall>r' s'. add_birthday r s = (Inr (), r') \<longrightarrow>
        add_birthday r' s' = (Inl (ValueError ''Birthday already set.''), r'))"
  by (auto simp: add_birthday_def split: sum.splits if_splits)

lemma Birthday_example:
  "Birthday ''12.12.1985'' = Inr (Birthday_obj \<lparr>year = 1985, month = 12, day = 12\<rparr>)"
  by (simp add: Birthday_eval)

theorem add_birthday_once_witness:
  "add_birthday \<lparr>name = ''Emma'', phones = [], birthday = None, addresses = None\<rparr> ''12.12.1985''
     = (Inr (), \<lparr>name = ''Emma'', phones = [],
                 birthday = Some (Birthday_obj \<lparr>year = 1985, month = 12, day = 12\<rparr>),
                 addresses = None\<rparr>)
   \<and> add_birthday \<lparr>name = ''Emma'', phones = [],
                 birthday = Some (Birthday_obj \<lparr>year = 1985, month = 12, day = 12\<rparr>),
                 addresses = None\<rparr> ''01.01.1990''
     = (Inl (ValueError ''Birthday already set.''),
        \<lparr>name = ''Emma'', phones = [],
         birthday = Some (Birthday_obj \<lparr>year = 1985, month = 12, day = 12\<rparr>),
         addresses = None\<rparr>)"
proof -
  let ?r = "\<lparr>name = ''Emma'', phones = [], birthday = None, addresses = None\<rparr>"
  let ?b = "Birthday_obj \<lparr>year = 1985, month = 12, day = 12\<rparr>"
  note once = add_birthday_once[of ?r "''12.12.1985''"]
  have none: "birthday ?r = None" by simp
  from once none have "Birthday ''12.12.1985'' = Inr ?b \<longrightarrow>
      add_birthday ?r ''12.12.1985'' = (Inr (), ?r\<lparr>birthday := Some ?b\<rparr>)"
    by blast
  with Birthday_example
  have first: "add_birthday ?r ''12.12.1985'' = (Inr (), ?r\<lparr>birthday := Some ?b\<rparr>)"
    by (rule rev_mp)
  with once have second: "add_birthday (?r\<lparr>birthday := Some ?b\<rparr>) ''01.01.1990''
        = (Inl (ValueError ''Birthday already set.''), ?r\<lparr>birthday := Some ?b\<rparr>)"
    by blast
  have upd: "?r\<lparr>birthday := Some ?b\<rparr> =
      \<lparr>name = ''Emma'', phones = [], birthday = Some ?b, addresses = None\<rparr>"
    by simp
  from first second show ?thesis unfolding upd by (rule conjI)
qed

section \<open>The handlers\<close>

lemma dict_set_same: "map_of ps k = Some v \<Longrightarrow> dict_set ps k v = ps"
  by (induction ps) (auto split: if_splits)

lemma dict_set_new: "map_of ps k = None \<Longrightarrow> dict_set ps k v = ps @ [(k, v)]"
  by (induction ps) (auto split: if_splits)

lemma map_of_append_new: "map_of ps k = None \<Longrightarrow> map_of (ps @ [(k, v)]) k = Some v"
  by (induction ps) (auto split: if_splits)

text \<open>
  C8, as stated, fails: Bob is in the book and no address was ever added to his record,
  so the record has no attribute \<open>addresses\<close>; both handlers raise \<open>KeyError\<close> and
  the decorator reports a missing contact.
\<close>

theorem no_addresses_counterexample:
  "find_record [(''Bob'', \<lparr>name = ''Bob'', phones = [], birthday = None, addresses = None\<rparr>)] ''Bob''
     = Some \<lparr>name = ''Bob'', phones = [], birthday = None, addresses = None\<rparr>
   \<and> change_address [''Bob'', ''Kyiv'', ''Lviv'']
       [(''Bob'', \<lparr>name = ''Bob'', phones = [], birthday = None, addresses = None\<rparr>)]
     = (Inr ''Contact not found.'',
        [(''Bob'', \<lparr>name = ''Bob'', phones = [], birthday = None, addresses = None\<rparr>)])
   \<and> remove_address [''Bob'', ''Kyiv'']
       [(''Bob'', \<lparr>name = ''Bob'', phones = [], birthday = None, addresses = None\<rparr>)]
     = (Inr ''Contact not found.'',
        [(''Bob'', \<lparr>name = ''Bob'', phones = [], birthday = None, addresses = None\<rparr>)])"
  by (simp add: find_record_def change_address_def change_address_body_def remove_address_def
      remove_address_body_def input_error_def)

text \<open>
  C8, amended. For a contact that is in the book: when its record has an empty list of
  addresses, \<open>change_address\<close> returns "Old address not found." and \<open>remove_address\<close>
  returns "Address removed.", and the book is unchanged; when no address was ever added
  to the record, so that it has no attribute \<open>addresses\<close>, both return
  "Contact not found." and the book is unchanged. Neither raises.
\<close>

theorem no_addresses_handlers:
  assumes "find_record book n = Some rec"
  shows "(addresses rec = Some [] \<longrightarrow>
            change_address (n # old_address # new_address # rest) book
              = (Inr ''Old address not found.'', book)
            \<and> remove_address (n # address_str # rest') book = (Inr ''Address removed.'', book))
         \<and> (addresses rec = None \<longrightarrow>
            change_address (n # old_address # new_address # rest) book
              = (Inr ''Contact not found.'', book)
            \<and> remove_address (n # address_str # rest') book = (Inr ''Contact not found.'', book))"
proof -
  from assms have m: "map_of book n = Some rec" by (simp add: find_record_def)
  have same: "dict_set book n (rec\<lparr>addresses := Some []\<rparr>) = book"
    if empty: "addresses rec = Some []"
  proof -
    from empty have "rec\<lparr>addresses := Some []\<rparr> = rec" by (cases rec) simp
    with dict_set_same[OF m] show ?thesis by simp
  qed
  from assms same show ?thesis
    by (simp add: change_address_def change_address_body_def remove_address_def
        remove_address_body_def input_error_def)
qed

theorem no_addresses_handlers_witness:
  "find_record [(''Bob'', \<lparr>name = ''Bob'', phones = [], birthday = None, addresses = Some []\<rparr>)] ''Bob''
     = Some \<lparr>name = ''Bob'', phones = [], birthday = None, addresses = Some []\<rparr>
   \<and> change_address [''Bob'', ''Kyiv'', ''Lviv'']
       [(''Bob'', \<lparr>name = ''Bob'', phones = [], birthday = None, addresses = Some []\<rparr>)]
     = (Inr ''Old address not found.'',
        [(''Bob'', \<lparr>name = ''Bob'', phones = [], birthday = None, addresses = Some []\<rparr>)])
   \<and> remove_address [''Bob'', ''Kyiv'']
       [(''Bob'', \<lparr>name = ''Bob'', phones = [], birthday = None, addresses = Some []\<rparr>)]
     = (Inr ''Address removed.'',
        [(''Bob'', \<lparr>name = ''Bob'', phones = [], birthday = None, addresses = Some []\<rparr>)])"
proof -
  let ?rec = "\<lparr>name = ''Bob'', phones = [], birthday = None, addresses = Some []\<rparr>"
  have f: "find_record [(''Bob'', ?rec)] ''Bob'' = Some ?rec" by (simp add: find_record_def)
  have e: "addresses ?rec = Some []" by simp
  from no_addresses_handlers[OF f, of "''Kyiv''" "''Lviv''" "[]" "''Kyiv''" "[]"] e
  have "change_address [''Bob'', ''Kyiv'', ''Lviv''] [(''Bob'', ?rec)]
          = (Inr ''Old address not found.'', [(''Bob'', ?rec)])
        \<and> remove_address [''Bob'', ''Kyiv''] [(''Bob'', ?rec)]
          = (Inr ''Address removed.'', [(''Bob'', ?rec)])"
    by (elim conjE) (rule mp)
  with f show ?thesis by (rule conjI)
qed

text \<open>
  C10, as stated, fails: the empty string is not a string of 10 digits, and \<open>add_contact\<close>
  skips an empty phone (\<open>if phone:\<close>), so it answers "Contact added." and not the
  validation error.
\<close>

theorem add_contact_empty_phone_counterexample:
  "\<not> Phone_validate '''' \<and> find_record [] ''Bob'' = None
   \<and> add_contact [''Bob'', ''''] []
     = (Inr ''Contact added.'',
        [(''Bob'', \<lparr>name = ''Bob'', phones = [], birthday = None, addresses = None\<rparr>)])"
  by (simp add: Phone_validate_def find_record_def add_contact_def add_contact_body_def
      new_Record_def Name_def add_record_def input_error_def)

text \<open>
  C10, amended. For a book that does not contain the name, a name that is not empty and
  a phone string that is not empty and fails the validation, \<open>add_contact\<close> returns the
  message of the validation error, and the new record, with no phones, stays in the
  book at the end. An empty phone string is skipped: the record is inserted and the
  answer is "Contact added.". An empty name is refused before anything is inserted.
\<close>

theorem add_contact_invalid_phone:
  assumes "find_record book n = None"
  shows "(n \<noteq> [] \<longrightarrow> phone \<noteq> [] \<longrightarrow> \<not> Phone_validate phone \<longrightarrow>
            add_contact (n # phone # rest) book
              = (Inr ''Phone number must contain exactly 10 digits.'',
                 book @ [(n, \<lparr>name = n, phones = [], birthday = None, addresses = None\<rparr>)]))
         \<and> (n \<noteq> [] \<longrightarrow> phone = [] \<longrightarrow>
            add_contact (n # phone # rest) book
              = (Inr ''Contact added.'',
                 book @ [(n, \<lparr>name = n, phones = [], birthday = None, addresses = None\<rparr>)]))
         \<and> (n = [] \<longrightarrow> add_contact (n # phone # rest) book = (Inr ''Invalid name.'', book))"
proof -
  let ?rec = "\<lparr>name = n, phones = [], birthday = None, addresses = None\<rparr>"
  from assms have m: "map_of book n = None" by (simp add: find_record_def)
  have ins: "add_record book ?rec = book @ [(n, ?rec)]"
    using dict_set_new[OF m] by (simp add: add_record_def)
  have again: "dict_set (book @ [(n, ?rec)]) n ?rec = book @ [(n, ?rec)]"
    by (rule dict_set_same) (rule map_of_append_new[OF m])
  from assms ins again show ?thesis
    by (auto simp: add_contact_def add_contact_body_def new_Record_def Name_def add_phone_def
        Phone_def phone_error_def input_error_def)
qed

theorem add_contact_invalid_phone_witness:
  "find_record [] ''Bob'' = None \<and> ''Bob'' \<noteq> [] \<and> ''123'' \<noteq> [] \<and> \<not> Phone_validate ''123''
   \<and> add_contact [''Bob'', ''123''] []
     = (Inr ''Phone number must contain exactly 10 digits.'',
        [] @ [(''Bob'', \<lparr>name = ''Bob'', phones = [], birthday = None, addresses = None\<rparr>)])"
proof -
  have f: "find_record [] ''Bob'' = None" by (simp add: find_record_def)
  have a: "''Bob'' \<noteq> []" by (rule list.distinct(2))
  have b: "''123'' \<noteq> []" by (rule list.distinct(2))
  have c: "\<not> Phone_validate ''123''" by (simp add: Phone_validate_def)
  from add_contact_invalid_phone[OF f, of "''123''" "[]"]
  have "''Bob'' \<noteq> [] \<longrightarrow> ''123'' \<noteq> [] \<longrightarrow> \<not> Phone_validate ''123'' \<longrightarrow>
      add_contact [''Bob'', ''123''] []
        = (Inr ''Phone number must contain exactly 10 digits.'',
           [] @ [(''Bob'', \<lparr>name = ''Bob'', phones = [], birthday = None, addresses = None\<rparr>)])"
    by (rule conjunct1)
  from this[rule_format, OF a b c] f a b c show ?thesis by (intro conjI)
qed

section \<open>What \<open>strptime\<close> accepts\<close>

lemma match_seq_Some_iff:
  "match_seq ps s = Some r \<longleftrightarrow> (\<exists>t. s = t @ r \<and> list_all2 (\<lambda>p c. p c) ps t)"
proof (induction ps s rule: match_seq.induct)
  case (1 s)
  then show ?case by auto
next
  case (2 p ps)
  then show ?case by (auto simp: list_all2_Cons1)
next
  case (3 p ps c cs)
  then show ?case by (auto simp: list_all2_Cons1 Cons_eq_append_conv)
qed

lemma match_group_set:
  "(t, r) \<in> set (match_group alts s) \<longleftrightarrow> s = t @ r \<and> matches alts t"
proof -
  have "(t, r) \<in> set (match_alt ps s) \<longleftrightarrow> s = t @ r \<and> list_all2 (\<lambda>p c. p c) ps t" for ps
  proof (cases "match_seq ps s")
    case None
    with match_seq_Some_iff[of ps s r] show ?thesis by (auto simp: match_alt_def)
  next
    case (Some r')
    then obtain t' where t': "s = t' @ r'" "list_all2 (\<lambda>p c. p c) ps t'"
      by (auto simp: match_seq_Some_iff)
    then have len: "length t' = length ps" by (auto dest: list_all2_lengthD)
    with t' have tk: "take (length ps) s = t'" by simp
    show ?thesis
    proof
      assume "(t, r) \<in> set (match_alt ps s)"
      with Some tk t' show "s = t @ r \<and> list_all2 (\<lambda>p c. p c) ps t"
        by (simp add: match_alt_def)
    next
      assume a: "s = t @ r \<and> list_all2 (\<lambda>p c. p c) ps t"
      then have "length t = length ps" by (auto dest: list_all2_lengthD)
      with a t' len have "t = t'" "r = r'" by auto
      with Some tk show "(t, r) \<in> set (match_alt ps s)" by (simp add: match_alt_def)
    qed
  qed
  then show ?thesis by (auto simp: match_group_def matches_def)
qed

lemma matches_re_dot: "matches re_dot x \<longleftrightarrow> x = ''.''"
  by (auto simp: matches_def re_dot_def lit_def list_all2_Cons1)

lemma in_concat_map: "a \<in> set xs \<Longrightarrow> x \<in> set (f a) \<Longrightarrow> x \<in> set (concat (map f xs))"
  by auto

lemma format_match_set:
  "(d, m, y, r) \<in> set (format_match s) \<longleftrightarrow>
     s = d @ ''.'' @ m @ ''.'' @ y @ r \<and> matches re_d d \<and> matches re_m m \<and> matches re_Y y"
proof
  assume "(d, m, y, r) \<in> set (format_match s)"
  then show "s = d @ ''.'' @ m @ ''.'' @ y @ r \<and> matches re_d d \<and> matches re_m m \<and> matches re_Y y"
    unfolding format_match_def by (auto simp: match_group_set matches_re_dot)
next
  assume a: "s = d @ ''.'' @ m @ ''.'' @ y @ r \<and> matches re_d d \<and> matches re_m m \<and> matches re_Y y"
  have 1: "(d, ''.'' @ m @ ''.'' @ y @ r) \<in> set (match_group re_d s)"
    using a by (simp add: match_group_set)
  have 2: "(''.'', m @ ''.'' @ y @ r) \<in> set (match_group re_dot (''.'' @ m @ ''.'' @ y @ r))"
    by (simp add: match_group_set matches_re_dot)
  have 3: "(m, ''.'' @ y @ r) \<in> set (match_group re_m (m @ ''.'' @ y @ r))"
    using a by (simp add: match_group_set)
  have 4: "(''.'', y @ r) \<in> set (match_group re_dot (''.'' @ y @ r))"
    by (simp add: match_group_set matches_re_dot)
  have 5: "(y, r) \<in> set (match_group re_Y (y @ r))"
    using a by (simp add: match_group_set)
  show "(d, m, y, r) \<in> set (format_match s)"
    unfolding format_match_def
    apply (rule in_concat_map[OF 1], simp only: prod.case)
    apply (rule in_concat_map[OF 2], simp only: prod.case)
    apply (rule in_concat_map[OF 3], simp only: prod.case)
    apply (rule in_concat_map[OF 4], simp only: prod.case)
    apply (simp only: set_map, rule image_eqI[OF _ 5], simp only: prod.case)
    done
qed

section \<open>Digits\<close>

lemma code_point_inj: "code_point a = code_point b \<Longrightarrow> a = b"
  by (simp add: code_point_def)

lemma decimal_cases:
  assumes "is_decimal_char c"
  shows "c \<in> set ''0123456789''"
proof -
  from assms have "code_point c = 48 \<or> code_point c = 49 \<or> code_point c = 50 \<or> code_point c = 51
      \<or> code_point c = 52 \<or> code_point c = 53 \<or> code_point c = 54 \<or> code_point c = 55
      \<or> code_point c = 56 \<or> code_point c = 57"
    unfolding is_decimal_char_def by arith
  then have "code_point c = code_point CHR ''0'' \<or> code_point c = code_point CHR ''1''
      \<or> code_point c = code_point CHR ''2'' \<or> code_point c = code_point CHR ''3''
      \<or> code_point c = code_point CHR ''4'' \<or> code_point c = code_point CHR ''5''
      \<or> code_point c = code_point CHR ''6'' \<or> code_point c = code_point CHR ''7''
      \<or> code_point c = code_point CHR ''8'' \<or> code_point c = code_point CHR ''9''"
    by (simp add: code_point_def)
  then show ?thesis by (auto dest!: code_point_inj)
qed

lemma digit_cases:
  assumes "k < 10"
  shows "k = 0 \<or> k = 1 \<or> k = 2 \<or> k = 3 \<or> k = 4 \<or> k = 5 \<or> k = 6 \<or> k = 7 \<or> k = 8 \<or> k = (9::nat)"
  using assms by arith

lemma code_point_digit_char: "k < 10 \<Longrightarrow> code_point (digit_char k) = 48 + k"
  by (drule digit_cases) (auto simp: digit_char_def code_point_def)

lemma is_decimal_digit_char: "k < 10 \<Longrightarrow> is_decimal_char (digit_char k)"
  by (simp add: is_decimal_char_def code_point_digit_char)

lemma digit_char_inverse: "is_decimal_char c \<Longrightarrow> digit_char (code_point c - 48) = c"
  by (drule decimal_cases) (auto simp: digit_char_def code_point_def)

lemma decimal_value_less: "is_decimal_char c \<Longrightarrow> code_point c - 48 < 10"
  by (auto simp: is_decimal_char_def)

lemma show_nat_1: "n < 10 \<Longrightarrow> show_nat n = [digit_char n]"
  by (simp add: show_nat.simps)

lemma show_nat_step: "10 \<le> n \<Longrightarrow> show_nat n = show_nat (n div 10) @ [digit_char (n mod 10)]"
  by (subst show_nat.simps) simp

lemma show_nat_2: "10 \<le> n \<Longrightarrow> n < 100 \<Longrightarrow> show_nat n = [digit_char (n div 10), digit_char (n mod 10)]"
  by (simp add: show_nat_step show_nat_1)

lemma show_nat_3:
  assumes "100 \<le> n" "n < 1000"
  shows "show_nat n = [digit_char (n div 100), digit_char (n div 10 mod 10), digit_char (n mod 10)]"
proof -
  from assms have "10 \<le> n div 10" "n div 10 < 100" by simp_all
  from show_nat_2[OF this] have "show_nat (n div 10) =
      [digit_char (n div 100), digit_char (n div 10 mod 10)]"
    by (simp add: div_mult2_eq[symmetric])
  with assms show ?thesis by (simp add: show_nat_step)
qed

lemma show_nat_4:
  assumes "1000 \<le> n" "n < 10000"
  shows "show_nat n = [digit_char (n div 1000), digit_char (n div 100 mod 10),
                       digit_char (n div 10 mod 10), digit_char (n mod 10)]"
proof -
  from assms have "100 \<le> n div 10" "n div 10 < 1000" by simp_all
  from show_nat_3[OF this] have "show_nat (n div 10) =
      [digit_char (n div 1000), digit_char (n div 100 mod 10), digit_char (n div 10 mod 10)]"
    by (simp add: div_mult2_eq[symmetric])
  with assms show ?thesis by (simp add: show_nat_step)
qed

lemma digit_char_0: "digit_char 0 = CHR ''0''"
  by (simp add: digit_char_def)

lemma replicate_small:
  "replicate 1 c = [c]" "replicate 2 c = [c, c]" "replicate 3 c = [c, c, c]"
  by (simp_all add: numeral_2_eq_2 numeral_3_eq_3)

lemma zero_pad_2:
  assumes "n < 100"
  shows "zero_pad 2 n = [digit_char (n div 10), digit_char (n mod 10)]"
proof (cases "n < 10")
  case True
  then show ?thesis by (simp add: zero_pad_def show_nat_1 digit_char_0 replicate_small)
next
  case False
  with assms show ?thesis by (simp add: zero_pad_def show_nat_2)
qed

lemma zero_pad_4:
  assumes "n < 10000"
  shows "zero_pad 4 n = [digit_char (n div 1000), digit_char (n div 100 mod 10),
                         digit_char (n div 10 mod 10), digit_char (n mod 10)]"
proof -
  consider "n < 10" | "10 \<le> n" "n < 100" | "100 \<le> n" "n < 1000" | "1000 \<le> n"
    by arith
  then show ?thesis
  proof cases
    case 1
    then show ?thesis by (simp add: zero_pad_def show_nat_1 digit_char_0 replicate_small)
  next
    case 2
    then show ?thesis by (simp add: zero_pad_def show_nat_2 digit_char_0 replicate_small)
  next
    case 3
    then show ?thesis by (simp add: zero_pad_def show_nat_3 digit_char_0 replicate_small)
  next
    case 4
    with assms show ?thesis by (simp add: zero_pad_def show_nat_4)
  qed
qed

section \<open>The shape of the strings that \<open>strptime\<close> accepts\<close>

lemma in_range_decimal:
  "in_range CHR ''0'' CHR ''1'' c \<Longrightarrow> is_decimal_char c"
  "in_range CHR ''0'' CHR ''2'' c \<Longrightarrow> is_decimal_char c"
  "in_range CHR ''1'' CHR ''2'' c \<Longrightarrow> is_decimal_char c"
  "in_range CHR ''1'' CHR ''9'' c \<Longrightarrow> is_decimal_char c"
  by (simp_all add: in_range_def is_decimal_char_def code_point_def)

lemma decimal_literals:
  "is_decimal_char CHR ''0''" "is_decimal_char CHR ''1''" "is_decimal_char CHR ''3''"
  "\<not> is_decimal_char CHR ''.''" "\<not> is_decimal_char CHR '' ''"
  by (simp_all add: is_decimal_char_def code_point_def)

lemma list_all2_two:
  "list_all2 (\<lambda>p c. p c) [p, q] t \<longleftrightarrow> (\<exists>a b. t = [a, b] \<and> p a \<and> q b)"
  by (auto simp: list_all2_Cons1)

lemma list_all2_one:
  "list_all2 (\<lambda>p c. p c) [p] t \<longleftrightarrow> (\<exists>a. t = [a] \<and> p a)"
  by (auto simp: list_all2_Cons1)

lemma matches_re_d_cases:
  assumes "matches re_d d"
  shows "(\<exists>a b. d = [a, b] \<and> (is_decimal_char a \<or> a = CHR '' '') \<and> is_decimal_char b)
         \<or> (\<exists>a. d = [a] \<and> is_decimal_char a)"
proof -
  from assms consider
      "list_all2 (\<lambda>p c. p c) [lit CHR ''3'', in_range CHR ''0'' CHR ''1''] d"
    | "list_all2 (\<lambda>p c. p c) [in_range CHR ''1'' CHR ''2'', is_decimal_char] d"
    | "list_all2 (\<lambda>p c. p c) [lit CHR ''0'', in_range CHR ''1'' CHR ''9''] d"
    | "list_all2 (\<lambda>p c. p c) [in_range CHR ''1'' CHR ''9''] d"
    | "list_all2 (\<lambda>p c. p c) [lit CHR '' '', in_range CHR ''1'' CHR ''9''] d"
    unfolding matches_def re_d_def by (simp only: list.set bex_simps insert_iff) blast
  then show ?thesis
  proof cases
    case 1
    then show ?thesis
      unfolding list_all2_two lit_def using in_range_decimal(1) decimal_literals(3) by blast
  next
    case 2
    then show ?thesis unfolding list_all2_two using in_range_decimal(3) by blast
  next
    case 3
    then show ?thesis
      unfolding list_all2_two lit_def using in_range_decimal(4) decimal_literals(1) by blast
  next
    case 4
    then show ?thesis unfolding list_all2_one using in_range_decimal(4) by blast
  next
    case 5
    then show ?thesis unfolding list_all2_two lit_def using in_range_decimal(4) by blast
  qed
qed

lemma matches_re_m_cases:
  assumes "matches re_m m"
  shows "(\<exists>a b. m = [a, b] \<and> is_decimal_char a \<and> is_decimal_char b)
         \<or> (\<exists>a. m = [a] \<and> is_decimal_char a)"
proof -
  from assms consider
      "list_all2 (\<lambda>p c. p c) [lit CHR ''1'', in_range CHR ''0'' CHR ''2''] m"
    | "list_all2 (\<lambda>p c. p c) [lit CHR ''0'', in_range CHR ''1'' CHR ''9''] m"
    | "list_all2 (\<lambda>p c. p c) [in_range CHR ''1'' CHR ''9''] m"
    unfolding matches_def re_m_def by (simp only: list.set bex_simps insert_iff) blast
  then show ?thesis
  proof cases
    case 1
    then show ?thesis
      unfolding list_all2_two lit_def using in_range_decimal(2) decimal_literals(2) by blast
  next
    case 2
    then show ?thesis
      unfolding list_all2_two lit_def using in_range_decimal(4) decimal_literals(1) by blast
  next
    case 3
    then show ?thesis unfolding list_all2_one using in_range_decimal(4) by blast
  qed
qed

lemma matches_re_Y_cases:
  assumes "matches re_Y y"
  shows "\<exists>a b c e. y = [a, b, c, e] \<and> is_decimal_char a \<and> is_decimal_char b
           \<and> is_decimal_char c \<and> is_decimal_char e"
  using assms by (auto simp: matches_def re_Y_def list_all2_Cons1)

lemma dd_mm_yyyy_cases:
  assumes "dd_mm_yyyy s"
  obtains d1 d2 m1 m2 y1 y2 y3 y4 where
    "s = [d1, d2, CHR ''.'', m1, m2, CHR ''.'', y1, y2, y3, y4]"
    "is_decimal_char d1" "is_decimal_char d2" "is_decimal_char m1" "is_decimal_char m2"
    "is_decimal_char y1" "is_decimal_char y2" "is_decimal_char y3" "is_decimal_char y4"
proof -
  from assms obtain d1 d2 p1 m1 m2 p2 y1 y2 y3 y4 where
    "s = [d1, d2, p1, m1, m2, p2, y1, y2, y3, y4]"
    "is_decimal_char d1" "is_decimal_char d2" "lit CHR ''.'' p1"
    "is_decimal_char m1" "is_decimal_char m2" "lit CHR ''.'' p2"
    "is_decimal_char y1" "is_decimal_char y2" "is_decimal_char y3" "is_decimal_char y4"
    unfolding dd_mm_yyyy_def list_all2_Cons1 list_all2_Nil by blast
  then show ?thesis using that by (simp add: lit_def)
qed

lemma padded_match_unique:
  assumes "is_decimal_char d1" "is_decimal_char d2" "is_decimal_char m1" "is_decimal_char m2"
    and "(d, m, y, r) \<in> set (format_match [d1, d2, CHR ''.'', m1, m2, CHR ''.'', y1, y2, y3, y4])"
  shows "d = [d1, d2] \<and> m = [m1, m2] \<and> y = [y1, y2, y3, y4] \<and> r = []"
proof -
  from assms(5) have eq: "[d1, d2, CHR ''.'', m1, m2, CHR ''.'', y1, y2, y3, y4]
      = d @ ''.'' @ m @ ''.'' @ y @ r"
    and md: "matches re_d d" and mm: "matches re_m m" and my: "matches re_Y y"
    by (simp_all add: format_match_set)
  from matches_re_d_cases[OF md] eq assms(2) have d: "d = [d1, d2]"
    and eq2: "[m1, m2, CHR ''.'', y1, y2, y3, y4] = m @ ''.'' @ y @ r"
    by (auto simp: decimal_literals)
  from matches_re_m_cases[OF mm] eq2 assms(4) have m: "m = [m1, m2]"
    and eq3: "[y1, y2, y3, y4] = y @ r"
    by (auto simp: decimal_literals)
  from matches_re_Y_cases[OF my] eq3 have "y = [y1, y2, y3, y4] \<and> r = []" by auto
  with d m show ?thesis by simp
qed

section \<open>Reading and writing numbers\<close>

lemma py_int_2:
  "a \<noteq> CHR '' '' \<Longrightarrow> py_int [a, b] = 10 * (code_point a - 48) + (code_point b - 48)"
  by (simp add: py_int_def)

lemma py_int_4:
  "a \<noteq> CHR '' '' \<Longrightarrow> py_int [a, b, c, e] =
     10 * (10 * (10 * (code_point a - 48) + (code_point b - 48)) + (code_point c - 48))
       + (code_point e - 48)"
  by (simp add: py_int_def)

lemma div_1000: "(n::nat) div 1000 = n div 10 div 10 div 10"
  by (simp add: div_mult2_eq[symmetric])

lemma div_100: "(n::nat) div 100 = n div 10 div 10"
  by (simp add: div_mult2_eq[symmetric])

lemma decimal_not_space: "is_decimal_char a \<Longrightarrow> a \<noteq> CHR '' ''"
  using decimal_literals(5) by auto

lemma render_2:
  assumes "is_decimal_char a" "is_decimal_char b"
  shows "zero_pad 2 (py_int [a, b]) = [a, b]"
proof -
  define va vb where "va = code_point a - 48" and "vb = code_point b - 48"
  from assms have lt: "va < 10" "vb < 10" by (simp_all add: va_def vb_def decimal_value_less)
  have n: "py_int [a, b] = 10 * va + vb"
    using assms(1) by (simp add: py_int_2 decimal_not_space va_def vb_def)
  from lt have "10 * va + vb < 100" "(10 * va + vb) div 10 = va" "(10 * va + vb) mod 10 = vb"
    by simp_all
  with n have "zero_pad 2 (py_int [a, b]) = [digit_char va, digit_char vb]"
    by (simp add: zero_pad_2)
  with assms show ?thesis by (simp add: va_def vb_def digit_char_inverse)
qed

lemma div_mod_10:
  assumes "x < 10"
  shows "(10 * q + x) mod 10 = (x::nat)" "(10 * q + x) div 10 = q"
  using assms by simp_all

lemma render_4:
  assumes "is_decimal_char a" "is_decimal_char b" "is_decimal_char c" "is_decimal_char e"
  shows "zero_pad 4 (py_int [a, b, c, e]) = [a, b, c, e]"
proof -
  define va vb vc ve where "va = code_point a - 48" and "vb = code_point b - 48"
    and "vc = code_point c - 48" and "ve = code_point e - 48"
  define n where "n = 10 * (10 * (10 * va + vb) + vc) + ve"
  from assms have lt: "va < 10" "vb < 10" "vc < 10" "ve < 10"
    by (simp_all add: va_def vb_def vc_def ve_def decimal_value_less)
  have n: "py_int [a, b, c, e] = n"
    using assms(1) by (simp add: py_int_4 decimal_not_space va_def vb_def vc_def ve_def n_def)
  have d0: "n mod 10 = ve" and q1: "n div 10 = 10 * (10 * va + vb) + vc"
    unfolding n_def by (rule div_mod_10[OF lt(4)])+
  have d1: "n div 10 mod 10 = vc" and q2: "n div 10 div 10 = 10 * va + vb"
    unfolding q1 by (rule div_mod_10[OF lt(3)])+
  have d2: "n div 10 div 10 mod 10 = vb" and q3: "n div 10 div 10 div 10 = va"
    unfolding q2 by (rule div_mod_10[OF lt(2)])+
  from lt have "n < 10000" by (simp add: n_def)
  from zero_pad_4[OF this] have "zero_pad 4 n = [digit_char va, digit_char vb, digit_char vc, digit_char ve]"
    unfolding div_1000 div_100 d0 d1 d2 q3 .
  with n assms show ?thesis by (simp add: va_def vb_def vc_def ve_def digit_char_inverse)
qed

lemma parse_2:
  assumes "n < 100"
  shows "py_int [digit_char (n div 10), digit_char (n mod 10)] = n"
proof -
  from assms have lt: "n div 10 < 10" "n mod 10 < 10" by simp_all
  from lt(1) have "digit_char (n div 10) \<noteq> CHR '' ''"
    by (intro decimal_not_space is_decimal_digit_char)
  with lt show ?thesis by (simp add: py_int_2 code_point_digit_char)
qed

lemma parse_4:
  assumes "n < 10000"
  shows "py_int [digit_char (n div 1000), digit_char (n div 100 mod 10),
                 digit_char (n div 10 mod 10), digit_char (n mod 10)] = n"
proof -
  from assms have lt: "n div 10 div 10 div 10 < 10" "n div 10 div 10 mod 10 < 10"
    "n div 10 mod 10 < 10" "n mod 10 < 10"
    by simp_all
  from lt(1) have "digit_char (n div 10 div 10 div 10) \<noteq> CHR '' ''"
    by (intro decimal_not_space is_decimal_digit_char)
  with lt have "py_int [digit_char (n div 10 div 10 div 10), digit_char (n div 10 div 10 mod 10),
                 digit_char (n div 10 mod 10), digit_char (n mod 10)] =
     10 * (10 * (10 * (n div 10 div 10 div 10) + n div 10 div 10 mod 10) + n div 10 mod 10)
       + n mod 10"
    by (simp add: py_int_4 code_point_digit_char)
  also have "\<dots> = n" by (simp only: mult_div_mod_eq)
  finally show ?thesis unfolding div_1000 div_100 .
qed

section \<open>Birthday: what is accepted and what is rendered\<close>

lemma date_new_Inl: "date_new y m d = Inl e \<Longrightarrow> \<exists>msg. e = ValueError msg"
  by (auto simp: date_new_def split: if_splits)

lemma strptime_Inr:
  assumes "strptime s = Inr dt"
  obtains d m y where "(d, m, y, []) \<in> set (format_match s)"
    and "date_new (py_int y) (py_int m) (py_int d) = Inr dt"
proof (cases "format_match s")
  case Nil
  with assms show ?thesis by (simp add: strptime_def)
next
  case (Cons h t)
  obtain d m y rest where h: "h = (d, m, y, rest)" by (cases h)
  with assms Cons have "rest = []" and "date_new (py_int y) (py_int m) (py_int d) = Inr dt"
    by (auto simp: strptime_def split: if_splits)
  moreover from Cons h have "(d, m, y, rest) \<in> set (format_match s)" by simp
  ultimately show ?thesis using that by simp
qed

lemma strptime_Inl: "strptime s = Inl e \<Longrightarrow> \<exists>msg. e = ValueError msg"
  by (auto simp: strptime_def split: list.splits if_splits dest: date_new_Inl)

lemma Birthday_Inl: "Birthday s = Inl e \<Longrightarrow> e = birthday_error"
  by (auto simp: Birthday_def split: sum.splits py_error.splits dest: strptime_Inl)

lemma Birthday_Inr:
  assumes "Birthday s = Inr b"
  shows "strptime s = Inr (birthday_value b)"
  using assms by (auto simp: Birthday_def split: sum.splits py_error.splits)

lemma days_in_month_le:
  assumes "1 \<le> m" "m \<le> 12"
  shows "days_in_month y m \<le> 31"
  using month_cases[OF assms] by (auto simp: days_in_month_def DAYS_IN_MONTH_def)

lemma valid_date_bounds:
  assumes "valid_date dt"
  shows "1 \<le> day dt" "day dt \<le> 31" "1 \<le> month dt" "month dt \<le> 12" "1 \<le> year dt"
    "year dt \<le> 9999"
proof -
  from assms have m: "1 \<le> month dt" "month dt \<le> 12"
    by (simp_all add: valid_date_def valid_ymd_def)
  from assms days_in_month_le[OF m, of "year dt"] show "day dt \<le> 31"
    by (simp add: valid_date_def valid_ymd_def)
  from assms show "1 \<le> day dt" "1 \<le> month dt" "month dt \<le> 12" "1 \<le> year dt" "year dt \<le> 9999"
    by (simp_all add: valid_date_def valid_ymd_def MAXYEAR_def)
qed

lemma strftime_dmY_digits:
  assumes "valid_date dt" "1000 \<le> year dt"
  shows "strftime_dmY dt =
    [digit_char (day dt div 10), digit_char (day dt mod 10), CHR ''.'',
     digit_char (month dt div 10), digit_char (month dt mod 10), CHR ''.'',
     digit_char (year dt div 1000), digit_char (year dt div 100 mod 10),
     digit_char (year dt div 10 mod 10), digit_char (year dt mod 10)]"
proof -
  note b = valid_date_bounds[OF assms(1)]
  from b have "day dt < 100" "month dt < 100" "year dt < 10000" by simp_all
  with assms(2) show ?thesis
    by (simp add: strftime_dmY_def strftime_Y_def zero_pad_2 show_nat_4)
qed

lemma strftime_dmY_padded:
  assumes "valid_date dt" "1000 \<le> year dt"
  shows "dd_mm_yyyy (strftime_dmY dt)"
proof -
  note b = valid_date_bounds[OF assms(1)]
  from b have "day dt div 10 < 10" "day dt mod 10 < 10" "month dt div 10 < 10"
    "month dt mod 10 < 10" "year dt div 1000 < 10" "year dt div 100 mod 10 < 10"
    "year dt div 10 mod 10 < 10" "year dt mod 10 < 10"
    by simp_all
  then show ?thesis
    unfolding strftime_dmY_digits[OF assms] dd_mm_yyyy_def
    by (simp add: is_decimal_digit_char lit_def)
qed

lemma matchesI: "ps \<in> set alts \<Longrightarrow> list_all2 (\<lambda>p c. p c) ps t \<Longrightarrow> matches alts t"
  by (auto simp: matches_def)

lemma in_range_digit_char:
  "k < 10 \<Longrightarrow> in_range lo hi (digit_char k) \<longleftrightarrow> code_point lo \<le> 48 + k \<and> 48 + k \<le> code_point hi"
  by (simp add: in_range_def code_point_digit_char)

lemma digit_char_literals:
  "digit_char 0 = CHR ''0''" "digit_char (Suc 0) = CHR ''1''" "digit_char 3 = CHR ''3''"
  by (simp_all add: digit_char_def)

lemma code_point_literals:
  "code_point CHR ''0'' = 48" "code_point CHR ''1'' = 49" "code_point CHR ''2'' = 50"
  "code_point CHR ''9'' = 57"
  by (simp_all add: code_point_def)

lemma matches_re_d_day:
  assumes "1 \<le> n" "n \<le> 31"
  shows "matches re_d [digit_char (n div 10), digit_char (n mod 10)]"
proof -
  have lt: "n mod 10 < 10" by simp
  define q r where "q = n div 10" and "r = n mod 10"
  have "n = 10 * q + r" "r < 10" by (simp_all add: q_def r_def)
  with assms have "q = 0 \<and> 1 \<le> r \<or> (q = 1 \<or> q = 2) \<or> q = 3 \<and> r \<le> 1" by arith
  then consider (a) "n div 10 = 0" "1 \<le> n mod 10"
    | (b) "n div 10 = 1 \<or> n div 10 = 2"
    | (c) "n div 10 = 3" "n mod 10 \<le> 1"
    unfolding q_def r_def by auto
  then show ?thesis
  proof cases
    case a
    have "list_all2 (\<lambda>p c. p c) [lit CHR ''0'', in_range CHR ''1'' CHR ''9'']
            [digit_char (n div 10), digit_char (n mod 10)]"
      using a lt by (simp add: lit_def digit_char_literals in_range_digit_char code_point_literals)
    then show ?thesis by (rule matchesI[rotated]) (simp add: re_d_def)
  next
    case b
    then have "n div 10 < 10" by auto
    with b have "list_all2 (\<lambda>p c. p c) [in_range CHR ''1'' CHR ''2'', is_decimal_char]
            [digit_char (n div 10), digit_char (n mod 10)]"
      using lt by (auto simp: in_range_digit_char code_point_literals is_decimal_digit_char)
    then show ?thesis by (rule matchesI[rotated]) (simp add: re_d_def)
  next
    case c
    have "list_all2 (\<lambda>p c. p c) [lit CHR ''3'', in_range CHR ''0'' CHR ''1'']
            [digit_char (n div 10), digit_char (n mod 10)]"
      using c lt by (simp add: lit_def digit_char_literals in_range_digit_char code_point_literals)
    then show ?thesis by (rule matchesI[rotated]) (simp add: re_d_def)
  qed
qed

lemma matches_re_m_month:
  assumes "1 \<le> n" "n \<le> 12"
  shows "matches re_m [digit_char (n div 10), digit_char (n mod 10)]"
proof -
  have lt: "n mod 10 < 10" by simp
  define q r where "q = n div 10" and "r = n mod 10"
  have "n = 10 * q + r" "r < 10" by (simp_all add: q_def r_def)
  with assms have "q = 0 \<and> 1 \<le> r \<or> q = 1 \<and> r \<le> 2" by arith
  then consider (a) "n div 10 = 0" "1 \<le> n mod 10"
    | (b) "n div 10 = 1" "n mod 10 \<le> 2"
    unfolding q_def r_def by auto
  then show ?thesis
  proof cases
    case a
    have "list_all2 (\<lambda>p c. p c) [lit CHR ''0'', in_range CHR ''1'' CHR ''9'']
            [digit_char (n div 10), digit_char (n mod 10)]"
      using a lt by (simp add: lit_def digit_char_literals in_range_digit_char code_point_literals)
    then show ?thesis by (rule matchesI[rotated]) (simp add: re_m_def)
  next
    case b
    have "list_all2 (\<lambda>p c. p c) [lit CHR ''1'', in_range CHR ''0'' CHR ''2'']
            [digit_char (n div 10), digit_char (n mod 10)]"
      using b lt by (simp add: lit_def digit_char_literals in_range_digit_char code_point_literals)
    then show ?thesis by (rule matchesI[rotated]) (simp add: re_m_def)
  qed
qed

lemma matches_re_Y_year:
  assumes "n < 10000"
  shows "matches re_Y [digit_char (n div 1000), digit_char (n div 100 mod 10),
                       digit_char (n div 10 mod 10), digit_char (n mod 10)]"
proof -
  from assms have "n div 1000 < 10" "n div 100 mod 10 < 10" "n div 10 mod 10 < 10" "n mod 10 < 10"
    by simp_all
  then have "list_all2 (\<lambda>p c. p c)
      [is_decimal_char, is_decimal_char, is_decimal_char, is_decimal_char]
      [digit_char (n div 1000), digit_char (n div 100 mod 10),
       digit_char (n div 10 mod 10), digit_char (n mod 10)]"
    by (simp add: is_decimal_digit_char)
  then show ?thesis by (rule matchesI[rotated]) (simp add: re_Y_def)
qed

section \<open>Loading the book\<close>

lemmas open_eval =
  load_data_def open_rb_def file_exists_def resolve_def components_def fs_bytes_def
  code_point_def PATH_MAX_def NAME_MAX_def

lemma split_on_absent: "sep \<notin> set s \<Longrightarrow> split_on sep s = [s]"
  by (induction s) auto

lemma components_plain_name:
  assumes "plain_name n"
  shows "components n = [n]"
proof -
  from assms have ne: "n \<noteq> []" and sl: "CHR ''/'' \<notin> set n" by (simp_all add: plain_name_def)
  from sl last_in_set[OF ne] have "last n \<noteq> CHR ''/''" by metis
  with ne show ?thesis by (simp add: components_def split_on_absent[OF sl])
qed

lemma open_rb_plain_name:
  assumes "plain_name n" "descend (root fs) [] (cwd fs) = (Dir True es, ups)"
    and "map_of es n = None"
  shows "open_rb fs n = Inl FileNotFoundError"
proof -
  from assms(1) have ne: "n \<noteq> []" and sl: "CHR ''/'' \<notin> set n" and nul: "CHR 0x00 \<notin> set n"
    and dots: "n \<noteq> ''.''" "n \<noteq> ''..''" and len: "fs_bytes n \<le> NAME_MAX"
    by (simp_all add: plain_name_def)
  from sl hd_in_set[OF ne] have hd: "hd n \<noteq> CHR ''/''" by metis
  from len have path: "\<not> PATH_MAX \<le> fs_bytes n" and name: "\<not> NAME_MAX < fs_bytes n"
    by (simp_all add: NAME_MAX_def PATH_MAX_def)
  have "resolve fs n = walk (Dir True es) ups [n]"
    using ne nul hd path assms(2) by (simp add: resolve_def components_plain_name[OF assms(1)])
  also have "\<dots> = Inl FileNotFoundError"
    using dots name assms(3) by simp
  finally show ?thesis by (simp add: open_rb_def)
qed

text \<open>
  C7, as stated, fails: the working directory holds the regular file \<open>plainfile\<close>, so no
  file exists at \<open>plainfile/x.pkl\<close>; \<open>open\<close> raises \<open>NotADirectoryError\<close>, which
  \<open>load_data\<close> does not catch.
\<close>

theorem load_data_not_a_directory_counterexample:
  "\<not> file_exists \<lparr>root = Dir True [(''plainfile'', File True ''data'')], cwd = []\<rparr>
        ''plainfile/x.pkl''
   \<and> load_data (\<lambda>f. Inr []) \<lparr>root = Dir True [(''plainfile'', File True ''data'')], cwd = []\<rparr>
        ''plainfile/x.pkl'' = Inl NotADirectoryError"
  by (simp add: open_eval)

text \<open>
  C7, amended. When \<open>open\<close> raises \<open>FileNotFoundError\<close>, \<open>load_data\<close> returns the empty
  book and raises nothing; this is so in particular for a plain name that the working
  directory does not hold. Any other exception of \<open>open\<close> goes to the caller.
\<close>

theorem load_data_missing_file:
  "(open_rb fs filename = Inl FileNotFoundError \<longrightarrow> load_data pickle_load fs filename = Inr [])
   \<and> (\<forall>e. open_rb fs filename = Inl e \<longrightarrow> e \<noteq> FileNotFoundError \<longrightarrow>
         load_data pickle_load fs filename = Inl e)
   \<and> (\<forall>es ups. plain_name filename \<longrightarrow>
         descend (root fs) [] (cwd fs) = (Dir True es, ups) \<longrightarrow> map_of es filename = None \<longrightarrow>
         load_data pickle_load fs filename = Inr [])"
proof (intro conjI allI impI)
  assume "open_rb fs filename = Inl FileNotFoundError"
  then show "load_data pickle_load fs filename = Inr []" by (simp add: load_data_def)
next
  fix e
  assume "open_rb fs filename = Inl e" "e \<noteq> FileNotFoundError"
  then show "load_data pickle_load fs filename = Inl e"
    by (cases e) (simp_all add: load_data_def)
next
  fix es ups
  assume "plain_name filename" "descend (root fs) [] (cwd fs) = (Dir True es, ups)"
    "map_of es filename = None"
  then have "open_rb fs filename = Inl FileNotFoundError" by (rule open_rb_plain_name)
  then show "load_data pickle_load fs filename = Inr []" by (simp add: load_data_def)
qed

theorem load_data_missing_file_witness:
  "open_rb \<lparr>root = Dir True [(''notes.txt'', File True ''data'')], cwd = []\<rparr> ''addressbook.pkl''
     = Inl FileNotFoundError
   \<and> load_data (\<lambda>f. Inl UnpicklingError)
        \<lparr>root = Dir True [(''notes.txt'', File True ''data'')], cwd = []\<rparr> ''addressbook.pkl''
     = Inr []"
proof -
  let ?fs = "\<lparr>root = Dir True [(''notes.txt'', File True ''data'')], cwd = []\<rparr>"
  have o: "open_rb ?fs ''addressbook.pkl'' = Inl FileNotFoundError"
    by (simp add: open_eval)
  from load_data_missing_file[of ?fs "''addressbook.pkl''" "\<lambda>f. Inl UnpicklingError"]
  have "open_rb ?fs ''addressbook.pkl'' = Inl FileNotFoundError \<longrightarrow>
      load_data (\<lambda>f. Inl UnpicklingError) ?fs ''addressbook.pkl'' = Inr []"
    by (rule conjunct1)
  from this o have "load_data (\<lambda>f. Inl UnpicklingError) ?fs ''addressbook.pkl'' = Inr []"
    by (rule mp)
  with o show ?thesis by (rule conjI)
qed

section \<open>Where the code breaks the claims\<close>

lemmas spec_eval =
  spec_reported_def spec_in_window_def spec_candidate_def days_out_def spec_line_def
  spec_shift_def weekday_def toordinal_def days_before_year_def days_before_month_def
  DAYS_BEFORE_MONTH_def is_leap_def days_after_numeral next_day_def days_in_month_def
  DAYS_IN_MONTH_def strftime_Ymd_def strftime_Y_def zero_pad_def show_nat.simps digit_char_def

text \<open>
  C2. The claim fails on the code. Today is 10 June 2023. Ann's birthday, 17 June, is
  re-anchored to 17 June 2023, exactly 7 days out, inside the window, and the book that
  holds only Ann reports her. In the book that also holds a contact born on 29 February
  2000 the \<open>replace\<close> of that birthday raises \<open>ValueError\<close>, and \<open>get_upcoming_birthdays\<close>
  returns nothing: Ann is not reported. The defect is the one of C9.
\<close>

theorem window_contact_lost_beside_leap_day:
  "days_out \<lparr>year = 2023, month = 6, day = 10\<rparr>
     (spec_candidate \<lparr>year = 2023, month = 6, day = 10\<rparr> \<lparr>year = 1990, month = 6, day = 17\<rparr>) = 7
   \<and> spec_reported \<lparr>year = 2023, month = 6, day = 10\<rparr>
       \<lparr>name = ''Ann'', phones = [],
        birthday = Some (Birthday_obj \<lparr>year = 1990, month = 6, day = 17\<rparr>), addresses = None\<rparr>
   \<and> get_upcoming_birthdays \<lparr>year = 2023, month = 6, day = 10\<rparr>
       [(''Ann'', \<lparr>name = ''Ann'', phones = [],
           birthday = Some (Birthday_obj \<lparr>year = 1990, month = 6, day = 17\<rparr>), addresses = None\<rparr>)]
     = Inr [''2023-06-19: Ann'']
   \<and> get_upcoming_birthdays \<lparr>year = 2023, month = 6, day = 10\<rparr>
       [(''Ann'', \<lparr>name = ''Ann'', phones = [],
           birthday = Some (Birthday_obj \<lparr>year = 1990, month = 6, day = 17\<rparr>), addresses = None\<rparr>),
        (''Leap'', \<lparr>name = ''Leap'', phones = [],
           birthday = Some (Birthday_obj \<lparr>year = 2000, month = 2, day = 29\<rparr>), addresses = None\<rparr>)]
     = Inl (ValueError ''day is out of range for month'')"
proof (intro conjI)
  show "days_out \<lparr>year = 2023, month = 6, day = 10\<rparr>
     (spec_candidate \<lparr>year = 2023, month = 6, day = 10\<rparr> \<lparr>year = 1990, month = 6, day = 17\<rparr>) = 7"
    by (simp add: spec_eval)
  show "spec_reported \<lparr>year = 2023, month = 6, day = 10\<rparr>
       \<lparr>name = ''Ann'', phones = [],
        birthday = Some (Birthday_obj \<lparr>year = 1990, month = 6, day = 17\<rparr>), addresses = None\<rparr>"
    by (simp add: spec_eval)
  show "get_upcoming_birthdays \<lparr>year = 2023, month = 6, day = 10\<rparr>
       [(''Ann'', \<lparr>name = ''Ann'', phones = [],
           birthday = Some (Birthday_obj \<lparr>year = 1990, month = 6, day = 17\<rparr>), addresses = None\<rparr>)]
     = Inr [''2023-06-19: Ann'']"
    by (simp add: upcoming_eval)
  show "get_upcoming_birthdays \<lparr>year = 2023, month = 6, day = 10\<rparr>
       [(''Ann'', \<lparr>name = ''Ann'', phones = [],
           birthday = Some (Birthday_obj \<lparr>year = 1990, month = 6, day = 17\<rparr>), addresses = None\<rparr>),
        (''Leap'', \<lparr>name = ''Leap'', phones = [],
           birthday = Some (Birthday_obj \<lparr>year = 2000, month = 2, day = 29\<rparr>), addresses = None\<rparr>)]
     = Inl (ValueError ''day is out of range for month'')"
    by (simp add: upcoming_eval)
qed

text \<open>
  C3. The claim fails on the code. Today is 10 June 2023. Emma's birthday, 11 June,
  falls on a Sunday inside the window, so her line is due, with the Monday 12 June 2023.
  The book holds a contact born on 29 February 2000 before her: the \<open>replace\<close> of that
  birthday raises \<open>ValueError\<close>, and no line is emitted for Emma. The defect is the one
  of C9.
\<close>

theorem weekend_line_lost_behind_leap_day:
  "spec_reported \<lparr>year = 2023, month = 6, day = 10\<rparr>
       \<lparr>name = ''Emma'', phones = [],
        birthday = Some (Birthday_obj \<lparr>year = 1985, month = 6, day = 11\<rparr>), addresses = None\<rparr>
   \<and> weekday (spec_candidate \<lparr>year = 2023, month = 6, day = 10\<rparr>
                 \<lparr>year = 1985, month = 6, day = 11\<rparr>) = 6
   \<and> spec_line \<lparr>year = 2023, month = 6, day = 10\<rparr>
       \<lparr>name = ''Emma'', phones = [],
        birthday = Some (Birthday_obj \<lparr>year = 1985, month = 6, day = 11\<rparr>), addresses = None\<rparr>
     = ''2023-06-12: Emma''
   \<and> get_upcoming_birthdays \<lparr>year = 2023, month = 6, day = 10\<rparr>
       [(''Leap'', \<lparr>name = ''Leap'', phones = [],
           birthday = Some (Birthday_obj \<lparr>year = 2000, month = 2, day = 29\<rparr>), addresses = None\<rparr>),
        (''Emma'', \<lparr>name = ''Emma'', phones = [],
           birthday = Some (Birthday_obj \<lparr>year = 1985, month = 6, day = 11\<rparr>), addresses = None\<rparr>)]
     = Inl (ValueError ''day is out of range for month'')"
proof (intro conjI)
  show "spec_reported \<lparr>year = 2023, month = 6, day = 10\<rparr>
       \<lparr>name = ''Emma'', phones = [],
        birthday = Some (Birthday_obj \<lparr>year = 1985, month = 6, day = 11\<rparr>), addresses = None\<rparr>"
    by (simp add: spec_eval)
  show "weekday (spec_candidate \<lparr>year = 2023, month = 6, day = 10\<rparr>
                 \<lparr>year = 1985, month = 6, day = 11\<rparr>) = 6"
    by (simp add: spec_eval)
  show "spec_line \<lparr>year = 2023, month = 6, day = 10\<rparr>
       \<lparr>name = ''Emma'', phones = [],
        birthday = Some (Birthday_obj \<lparr>year = 1985, month = 6, day = 11\<rparr>), addresses = None\<rparr>
     = ''2023-06-12: Emma''"
    by (simp add: spec_eval)
  show "get_upcoming_birthdays \<lparr>year = 2023, month = 6, day = 10\<rparr>
       [(''Leap'', \<lparr>name = ''Leap'', phones = [],
           birthday = Some (Birthday_obj \<lparr>year = 2000, month = 2, day = 29\<rparr>), addresses = None\<rparr>),
        (''Emma'', \<lparr>name = ''Emma'', phones = [],
           birthday = Some (Birthday_obj \<lparr>year = 1985, month = 6, day = 11\<rparr>), addresses = None\<rparr>)]
     = Inl (ValueError ''day is out of range for month'')"
    by (simp add: upcoming_eval)
qed

text \<open>
  C5. The claim fails on the code: in \<open>1.1.2000\<close> neither the day nor the month has two
  digits, yet \<open>strptime\<close> accepts it and the Birthday is built, where the claim, the
  docstring and the message of the error ask for DD.MM.YYYY. Rendering the birthday
  gives \<open>01.01.2000\<close>, not the string that was given.
\<close>

theorem Birthday_accepts_unpadded:
  "\<not> dd_mm_yyyy ''1.1.2000''
   \<and> Birthday ''1.1.2000'' = Inr (Birthday_obj \<lparr>year = 2000, month = 1, day = 1\<rparr>)
   \<and> date_str (Birthday_obj \<lparr>year = 2000, month = 1, day = 1\<rparr>) = ''01.01.2000''"
proof (intro conjI)
  show "\<not> dd_mm_yyyy ''1.1.2000''"
    by (simp add: dd_mm_yyyy_def lit_def is_decimal_char_def code_point_def)
  show "Birthday ''1.1.2000'' = Inr (Birthday_obj \<lparr>year = 2000, month = 1, day = 1\<rparr>)"
    by (simp add: Birthday_eval)
  show "date_str (Birthday_obj \<lparr>year = 2000, month = 1, day = 1\<rparr>) = ''01.01.2000''"
    by (simp add: date_str_def strftime_dmY_def strftime_Y_def zero_pad_def show_nat.simps
        digit_char_def)
qed

section \<open>When the birthday query returns\<close>

lemma year_of_later_date:
  assumes "valid_ymd a" "valid_ymd b" "toordinal b \<le> toordinal a + 365"
  shows "year b \<le> year a + 1"
proof (rule ccontr)
  assume "\<not> year b \<le> year a + 1"
  then have far: "Suc (year a) < year b" by simp
  from assms(1) have ya: "1 \<le> year a" by (simp add: valid_ymd_def)
  then have ya1: "1 \<le> Suc (year a)" by simp
  from days_before_year_next[OF ya1 far]
  have "days_before_year (Suc (year a)) + 365 \<le> days_before_year (year b)"
    by (simp split: if_splits)
  moreover from day_of_year_le[OF assms(1)] days_before_year_Suc[OF ya]
  have "toordinal a \<le> days_before_year (Suc (year a))"
    by (simp add: toordinal_def split: if_splits)
  moreover from assms(2) have "days_before_year (year b) < toordinal b"
    by (simp add: toordinal_def valid_ymd_def)
  ultimately show False using assms(3) by simp
qed

lemma date_add_returns:
  assumes "valid_ymd d" "toordinal d + k \<le> toordinal t + 365" "valid_ymd t" "year t < MAXYEAR"
  shows "date_add d k = Inr (days_after d k)"
proof -
  from toordinal_days_after[OF assms(1), of k]
  have v: "valid_ymd (days_after d k)" and o: "toordinal (days_after d k) = toordinal d + k"
    by simp_all
  from year_of_later_date[OF assms(3) v] o assms(2) have "year (days_after d k) \<le> year t + 1"
    by simp
  with assms(4) show ?thesis by (simp add: date_add_def)
qed

lemma day_fits_every_year:
  assumes "valid_ymd b" "\<not> (month b = 2 \<and> day b = 29)"
  shows "day b \<le> days_in_month y (month b)"
proof (cases "month b = 2")
  case True
  with assms have "day b \<le> 29" "day b \<noteq> 29"
    by (auto simp: valid_ymd_def days_in_month_def DAYS_IN_MONTH_def split: if_splits)
  then have "day b \<le> 28" by simp
  with True show ?thesis by (simp add: days_in_month_def DAYS_IN_MONTH_def)
next
  case False
  with assms(1) show ?thesis by (simp add: valid_ymd_def days_in_month_def)
qed

lemma date_replace_year_returns:
  assumes "valid_ymd b" "\<not> (month b = 2 \<and> day b = 29)" "1 \<le> y" "y \<le> MAXYEAR"
  shows "date_replace_year b y = Inr (b\<lparr>year := y\<rparr>)"
  using assms day_fits_every_year[OF assms(1,2), of y]
  by (cases b) (simp add: date_replace_year_def date_new_def valid_ymd_def MINYEAR_def)

lemma reanchor_returns:
  assumes "valid_date today" "year today < MAXYEAR"
    and "valid_ymd b" "\<not> (month b = 2 \<and> day b = 29)"
  shows "\<exists>c. reanchor today b = Inr c"
proof -
  from assms(1) have y: "1 \<le> year today" "year today \<le> MAXYEAR"
    by (simp_all add: valid_date_def valid_ymd_def)
  note first = date_replace_year_returns[OF assms(3,4) y]
  have v: "valid_ymd (b\<lparr>year := year today\<rparr>)"
    using date_replace_year_Inr[OF first] by (simp add: valid_date_ymd)
  have n: "\<not> (month (b\<lparr>year := year today\<rparr>) = 2 \<and> day (b\<lparr>year := year today\<rparr>) = 29)"
    using assms(4) by simp
  from y assms(2) have y1: "1 \<le> Suc (year today)" "Suc (year today) \<le> MAXYEAR" by simp_all
  note second = date_replace_year_returns[OF v n y1]
  show ?thesis by (simp add: reanchor_def first second)
qed

lemma congr_date_returns:
  assumes "valid_date today" "year today < MAXYEAR" "valid_date c"
    and "toordinal c \<le> toordinal today + 7"
  shows "\<exists>cd. congr_date c = Inr cd"
proof (cases "weekday c \<ge> 5")
  case False
  then show ?thesis by (simp add: congr_date_def)
next
  case True
  have "toordinal c + (7 - weekday c) \<le> toordinal today + 365" using assms(4) by simp
  from date_add_returns[OF valid_date_ymd[OF assms(3)] this valid_date_ymd[OF assms(1)] assms(2)]
    True
  show ?thesis by (simp add: congr_date_def)
qed

lemma upcoming_step_returns:
  assumes "valid_date today" "year today < MAXYEAR" "date_add today 7 = Inr next_week"
    and "\<And>b. birthday rec = Some b \<Longrightarrow>
           valid_date (birthday_value b)
           \<and> \<not> (month (birthday_value b) = 2 \<and> day (birthday_value b) = 29)"
  shows "\<exists>gs'. upcoming_step today next_week gs rec = Inr gs'"
proof (cases "birthday rec")
  case None
  then show ?thesis by (simp add: upcoming_step_def)
next
  case (Some b)
  from assms(4)[OF Some] have vb: "valid_ymd (birthday_value b)"
    and nb: "\<not> (month (birthday_value b) = 2 \<and> day (birthday_value b) = 29)"
    by (simp_all add: valid_date_ymd)
  from reanchor_returns[OF assms(1,2) vb nb] obtain c where
    c: "reanchor today (birthday_value b) = Inr c" by blast
  from reanchor_spec[OF assms(1) c] have vc: "valid_date c" by (rule conjunct2)
  note win = window_spec[OF assms(1) vc assms(3)]
  show ?thesis
  proof (cases "date_le today c \<and> date_le c next_week")
    case False
    with Some c show ?thesis by (auto simp: upcoming_step_def)
  next
    case True
    with win have "toordinal c \<le> toordinal today + 7"
      by (simp add: spec_in_window_def days_out_def)
    from congr_date_returns[OF assms(1,2) vc this] obtain cd where "congr_date c = Inr cd"
      by blast
    with Some c True show ?thesis by (simp add: upcoming_step_def)
  qed
qed

lemma upcoming_loop_returns:
  assumes "valid_date today" "year today < MAXYEAR" "date_add today 7 = Inr next_week"
  shows "(\<And>rec b. rec \<in> set recs \<Longrightarrow> birthday rec = Some b \<Longrightarrow>
            valid_date (birthday_value b)
            \<and> \<not> (month (birthday_value b) = 2 \<and> day (birthday_value b) = 29)) \<Longrightarrow>
         \<exists>gs'. upcoming_loop today next_week recs gs = Inr gs'"
proof (induction recs arbitrary: gs)
  case Nil
  then show ?case by simp
next
  case (Cons rec recs)
  have "\<exists>gs1. upcoming_step today next_week gs rec = Inr gs1"
    by (rule upcoming_step_returns[OF assms]) (rule Cons.prems, simp_all)
  then obtain gs1 where step: "upcoming_step today next_week gs rec = Inr gs1" by blast
  have "\<exists>gs'. upcoming_loop today next_week recs gs1 = Inr gs'"
    by (rule Cons.IH) (rule Cons.prems, simp_all)
  with step show ?case by simp
qed

text \<open>
  For a day before the year 9999 and a book in which every birthday is a valid date
  other than 29 February, \<open>get_upcoming_birthdays\<close> returns, and what it returns is one
  line, as the spec describes it, for each record whose candidate is in the window.
\<close>

lemma get_upcoming_birthdays_returns:
  assumes "valid_date today" "year today < MAXYEAR"
    and "\<And>rec b. rec \<in> set (dict_values book) \<Longrightarrow> birthday rec = Some b \<Longrightarrow>
           valid_date (birthday_value b)
           \<and> \<not> (month (birthday_value b) = 2 \<and> day (birthday_value b) = 29)"
  shows "get_upcoming_birthdays today book =
           Inr (map (spec_line today) (filter (spec_reported today) (dict_values book)))"
proof -
  have "toordinal today + 7 \<le> toordinal today + 365" by simp
  from date_add_returns[OF valid_date_ymd[OF assms(1)] this valid_date_ymd[OF assms(1)] assms(2)]
  have nw: "date_add today 7 = Inr (days_after today 7)" .
  from upcoming_loop_returns[OF assms(1,2) nw, of "dict_values book" "[]"] assms(3)
  obtain gs where loop: "upcoming_loop today (days_after today 7) (dict_values book) [] = Inr gs"
    by blast
  from upcoming_loop_spec[OF assms(1) nw loop] loop nw show ?thesis
    by (simp add: get_upcoming_birthdays_def)
qed

section \<open>What a Birthday is built from\<close>

text \<open>
  Every string that \<open>Birthday\<close> accepts is a day, a dot, a month, a dot and a year of
  four digits, as the groups of the format match them, and the value stored is the
  valid date that they name.
\<close>

lemma Birthday_accepted_shape:
  assumes "Birthday s = Inr b"
  shows "valid_date (birthday_value b)
         \<and> (\<exists>d m y. s = d @ ''.'' @ m @ ''.'' @ y
               \<and> matches re_d d \<and> matches re_m m \<and> matches re_Y y
               \<and> birthday_value b = \<lparr>year = py_int y, month = py_int m, day = py_int d\<rparr>)"
proof -
  from Birthday_Inr[OF assms] obtain d m y where
    mem: "(d, m, y, []) \<in> set (format_match s)"
    and new: "date_new (py_int y) (py_int m) (py_int d) = Inr (birthday_value b)"
    by (rule strptime_Inr)
  from mem have shape: "s = d @ ''.'' @ m @ ''.'' @ y" "matches re_d d" "matches re_m m"
    "matches re_Y y"
    by (simp_all add: format_match_set)
  note dn = date_new_Inr[OF new]
  from dn have v: "valid_date (birthday_value b)" by (rule conjunct2)
  from dn have e: "birthday_value b = \<lparr>year = py_int y, month = py_int m, day = py_int d\<rparr>"
    by (rule conjunct1)
  from shape e have "\<exists>d m y. s = d @ ''.'' @ m @ ''.'' @ y
               \<and> matches re_d d \<and> matches re_m m \<and> matches re_Y y
               \<and> birthday_value b = \<lparr>year = py_int y, month = py_int m, day = py_int d\<rparr>"
    by blast
  with v show ?thesis by (rule conjI)
qed

text \<open>
  From the year 1000 on, the string that \<open>date_str\<close> renders for a valid date is accepted
  and gives the same date back.
\<close>

lemma Birthday_of_rendered:
  assumes "valid_date dt" "1000 \<le> year dt"
  shows "Birthday (strftime_dmY dt) = Inr (Birthday_obj dt)"
proof -
  note b = valid_date_bounds[OF assms(1)]
  let ?D = "[digit_char (day dt div 10), digit_char (day dt mod 10)]"
  let ?M = "[digit_char (month dt div 10), digit_char (month dt mod 10)]"
  let ?Y = "[digit_char (year dt div 1000), digit_char (year dt div 100 mod 10),
             digit_char (year dt div 10 mod 10), digit_char (year dt mod 10)]"
  let ?s = "[digit_char (day dt div 10), digit_char (day dt mod 10), CHR ''.'',
     digit_char (month dt div 10), digit_char (month dt mod 10), CHR ''.'',
     digit_char (year dt div 1000), digit_char (year dt div 100 mod 10),
     digit_char (year dt div 10 mod 10), digit_char (year dt mod 10)]"
  have s: "strftime_dmY dt = ?s" by (rule strftime_dmY_digits[OF assms])
  from b have lt: "day dt < 100" "month dt < 100" "year dt < 10000" by simp_all
  have md: "matches re_d ?D" by (rule matches_re_d_day[OF b(1,2)])
  have mm: "matches re_m ?M" by (rule matches_re_m_month[OF b(3,4)])
  have my: "matches re_Y ?Y" by (rule matches_re_Y_year[OF lt(3)])
  have "?s = ?D @ ''.'' @ ?M @ ''.'' @ ?Y @ []" by simp
  with md mm my have mem: "(?D, ?M, ?Y, []) \<in> set (format_match ?s)"
    by (simp only: format_match_set)
  then obtain h t where ht: "format_match ?s = h # t" by (cases "format_match ?s") auto
  obtain d m y r where h: "h = (d, m, y, r)" by (cases h)
  from ht h have hm: "(d, m, y, r) \<in> set (format_match ?s)" by simp
  from lt have dec: "is_decimal_char (digit_char (day dt div 10))"
    "is_decimal_char (digit_char (day dt mod 10))"
    "is_decimal_char (digit_char (month dt div 10))"
    "is_decimal_char (digit_char (month dt mod 10))"
    by (simp_all add: is_decimal_digit_char)
  from padded_match_unique[OF dec hm] have u: "d = ?D" "m = ?M" "y = ?Y" "r = []"
    by blast+
  have new: "date_new (year dt) (month dt) (day dt) = Inr dt"
    using assms(1) by (cases dt) (simp add: date_new_def valid_date_def valid_ymd_def MINYEAR_def)
  have "strptime ?s = date_new (py_int ?Y) (py_int ?M) (py_int ?D)"
    unfolding strptime_def ht h u by simp
  also have "\<dots> = Inr dt"
    unfolding parse_2[OF lt(1)] parse_2[OF lt(2)] parse_4[OF lt(3)] by (rule new)
  finally show ?thesis unfolding s by (simp add: Birthday_def)
qed

end
